theory Spec2Isabelle
  imports Complex_Main "HOL-Library.AList"
begin

section \<open>Numbers and vectors\<close>

text \<open>
  A JavaScript number is modelled as a real number or one of the three special values of
  IEEE arithmetic. Rounding, overflow and the sign of zero are idealised away; division by
  zero and the propagation of \<open>NaN\<close> are kept, because \<open>HVertex.getNormal\<close> and
  \<open>laplacianSmoothSharpen\<close> divide by a sum or a count that can be zero.
\<close>

datatype jsnum = Fin real | PInf | NInf | NaN

fun nneg :: "jsnum \<Rightarrow> jsnum" where
  "nneg (Fin a) = Fin (- a)"
| "nneg PInf = NInf"
| "nneg NInf = PInf"
| "nneg NaN = NaN"

fun nadd :: "jsnum \<Rightarrow> jsnum \<Rightarrow> jsnum" where
  "nadd (Fin a) (Fin b) = Fin (a + b)"
| "nadd NaN y = NaN"
| "nadd x NaN = NaN"
| "nadd PInf NInf = NaN"
| "nadd NInf PInf = NaN"
| "nadd PInf y = PInf"
| "nadd x PInf = PInf"
| "nadd NInf y = NInf"
| "nadd x NInf = NInf"

definition nsub :: "jsnum \<Rightarrow> jsnum \<Rightarrow> jsnum" where
  "nsub x y = nadd x (nneg y)"

text \<open>The sign of an infinite product; a zero factor times an infinity is \<open>NaN\<close>.\<close>

definition inf_times :: "bool \<Rightarrow> real \<Rightarrow> jsnum" where
  "inf_times positive b =
     (if b = 0 then NaN else if (0 < b) = positive then PInf else NInf)"

fun nmul :: "jsnum \<Rightarrow> jsnum \<Rightarrow> jsnum" where
  "nmul (Fin a) (Fin b) = Fin (a * b)"
| "nmul NaN y = NaN"
| "nmul x NaN = NaN"
| "nmul PInf (Fin b) = inf_times True b"
| "nmul NInf (Fin b) = inf_times False b"
| "nmul (Fin a) PInf = inf_times True a"
| "nmul (Fin a) NInf = inf_times False a"
| "nmul PInf PInf = PInf"
| "nmul NInf NInf = PInf"
| "nmul PInf NInf = NInf"
| "nmul NInf PInf = NInf"

text \<open>\<open>1 / x\<close>; the zero denominators of the source are positive zeros.\<close>

fun ninv :: "jsnum \<Rightarrow> jsnum" where
  "ninv (Fin a) = (if a = 0 then PInf else Fin (1 / a))"
| "ninv PInf = Fin 0"
| "ninv NInf = Fin 0"
| "ninv NaN = NaN"

fun nsqrt :: "jsnum \<Rightarrow> jsnum" where
  "nsqrt (Fin a) = (if a < 0 then NaN else Fin (sqrt a))"
| "nsqrt PInf = PInf"
| "nsqrt NInf = NaN"
| "nsqrt NaN = NaN"

text \<open>The comparison \<open>x > 0\<close>.\<close>

fun npositive :: "jsnum \<Rightarrow> bool" where
  "npositive (Fin a) = (0 < a)"
| "npositive PInf = True"
| "npositive NInf = False"
| "npositive NaN = False"

type_synonym vec3 = "jsnum \<times> jsnum \<times> jsnum"

text \<open>
  Modelled from the spec: the glMatrix library (\<open>vec3\<close>) is not under src/. The
  spec names its operations (add, subtract, cross, scale, normalize, length) as pure
  functions; they are given their usual component-wise meaning, \<open>length\<close> as the square
  root of the sum of squares, and \<open>normalize\<close> leaving a vector of squared length not
  above zero unscaled by a reciprocal (it multiplies by the squared length itself).
\<close>

definition fromValues :: "real \<Rightarrow> real \<Rightarrow> real \<Rightarrow> vec3" where
  "fromValues x y z = (Fin x, Fin y, Fin z)"

definition vnegate :: "vec3 \<Rightarrow> vec3" where
  "vnegate a = (case a of (x, y, z) \<Rightarrow> (nneg x, nneg y, nneg z))"

definition vadd :: "vec3 \<Rightarrow> vec3 \<Rightarrow> vec3" where
  "vadd a b = (case a of (ax, ay, az) \<Rightarrow> case b of (bx, by, bz) \<Rightarrow>
     (nadd ax bx, nadd ay by, nadd az bz))"

definition vscale :: "vec3 \<Rightarrow> jsnum \<Rightarrow> vec3" where
  "vscale a s = (case a of (x, y, z) \<Rightarrow> (nmul x s, nmul y s, nmul z s))"

definition vcross :: "vec3 \<Rightarrow> vec3 \<Rightarrow> vec3" where
  "vcross a b = (case a of (ax, ay, az) \<Rightarrow> case b of (bx, by, bz) \<Rightarrow>
     (nsub (nmul ay bz) (nmul az by),
      nsub (nmul az bx) (nmul ax bz),
      nsub (nmul ax by) (nmul ay bx)))"

definition sqlen :: "vec3 \<Rightarrow> jsnum" where
  "sqlen a = (case a of (x, y, z) \<Rightarrow> nadd (nadd (nmul x x) (nmul y y)) (nmul z z))"

definition vlength :: "vec3 \<Rightarrow> jsnum" where
  "vlength a = nsqrt (sqlen a)"

definition vnormalize :: "vec3 \<Rightarrow> vec3" where
  "vnormalize a =
     (let len = sqlen a in
      vscale a (if npositive len then ninv (nsqrt len) else len))"

text \<open>\<open>getVectorBetweenPoints(a, b)\<close>: \<open>a\<close> plus the negation of \<open>b\<close>.\<close>

definition getVectorBetweenPoints :: "vec3 \<Rightarrow> vec3 \<Rightarrow> vec3" where
  "getVectorBetweenPoints a b = vadd a (vnegate b)"

section \<open>Mesh components\<close>

text \<open>
  Objects live in the three arrays of the mesh, and a reference to an object is its index
  there; \<open>None\<close> is \<open>null\<close> (or \<open>undefined\<close>). The \<open>ID\<close> fields are a
  separate attribute, \<open>None\<close> while unassigned: \<open>makeTriangle\<close> never assigns
  them. The fields \<open>h\<close> and \<open>ID\<close> carry the initial of their class, and
  \<open>next\<close> is written \<open>nxt\<close>.
\<close>

record HEdge =
  head :: "nat option"
  face :: "nat option"
  pair :: "nat option"
  prev :: "nat option"
  nxt :: "nat option"
  eID :: "nat option"
  isChecked :: bool

record HFace =
  fh :: "nat option"
  fID :: "nat option"

record HVertex =
  pos :: vec3
  color :: vec3
  vh :: "nat option"
  vID :: "nat option"

record HedgeMesh =
  vertices :: "HVertex list"
  edges :: "HEdge list"
  faces :: "HFace list"
  needsDisplayUpdate :: bool

definition newHEdge :: HEdge where
  "newHEdge = \<lparr>head = None, face = None, pair = None, prev = None, nxt = None,
     eID = None, isChecked = False\<rparr>"

definition newHFace :: HFace where
  "newHFace = \<lparr>fh = None, fID = None\<rparr>"

definition gray :: vec3 where
  "gray = fromValues (1/2) (1/2) (1/2)"

definition newHVertex :: "vec3 \<Rightarrow> vec3 \<Rightarrow> HVertex" where
  "newHVertex p c = \<lparr>pos = p, color = c, vh = None, vID = None\<rparr>"

section \<open>Outcomes of a call\<close>

text \<open>
  The source has no \<open>throw\<close>; the only exception a call can end in is the
  \<open>TypeError\<close> of reading a property of \<open>null\<close> or \<open>undefined\<close>. Its
  \<open>while\<close> loops have no iteration cap, so every function with such a loop takes a
  fuel argument, and \<open>OutOfFuel\<close> stands for a loop still running when it is used up.
\<close>

datatype error = TypeError

datatype 'a result = Ok 'a | Err error | OutOfFuel

fun rbind :: "'a result \<Rightarrow> ('a \<Rightarrow> 'b result) \<Rightarrow> 'b result" where
  "rbind (Ok x) f = f x"
| "rbind (Err e) f = Err e"
| "rbind OutOfFuel f = OutOfFuel"

text \<open>Following a reference: \<open>null\<close> and an index outside the array have no fields.\<close>

definition deref :: "'a list \<Rightarrow> nat option \<Rightarrow> 'a result" where
  "deref xs r =
     (case r of None \<Rightarrow> Err TypeError
      | Some i \<Rightarrow> if i < length xs then Ok (xs ! i) else Err TypeError)"

definition getE :: "HedgeMesh \<Rightarrow> nat option \<Rightarrow> HEdge result" where
  "getE m r = deref (edges m) r"

definition getV :: "HedgeMesh \<Rightarrow> nat option \<Rightarrow> HVertex result" where
  "getV m r = deref (vertices m) r"

definition getF :: "HedgeMesh \<Rightarrow> nat option \<Rightarrow> HFace result" where
  "getF m r = deref (faces m) r"

section \<open>HFace\<close>

text \<open>
  \<open>HFace.getEdges\<close>: the loop \<open>while (h != this.h) { edges.push(h); h = h.next; }\<close>,
  with \<open>start\<close> for \<open>this.h\<close>. A \<open>null\<close> in \<open>h\<close> is pushed and then
  dereferenced, which throws. The list holds edge references.
\<close>

fun getEdges_loop :: "nat \<Rightarrow> HedgeMesh \<Rightarrow> nat \<Rightarrow> nat option \<Rightarrow> nat list \<Rightarrow> nat list result" where
  "getEdges_loop 0 m start h es = OutOfFuel"
| "getEdges_loop (Suc n) m start h es =
     (if h \<noteq> Some start
      then (case h of None \<Rightarrow> Err TypeError
            | Some e \<Rightarrow>
                rbind (getE m (Some e)) (\<lambda>ed. getEdges_loop n m start (nxt ed) (es @ [e])))
      else Ok es)"

definition getEdges :: "nat \<Rightarrow> HedgeMesh \<Rightarrow> nat \<Rightarrow> nat list result" where
  "getEdges n m f =
     rbind (getF m (Some f)) (\<lambda>this.
       case fh this of None \<Rightarrow> Ok []
       | Some start \<Rightarrow>
           rbind (getE m (Some start)) (\<lambda>ed. getEdges_loop n m start (nxt ed) [start]))"

text \<open>\<open>HFace.getVertices\<close>: the same walk, pushing \<open>h.head\<close>; a head may be \<open>null\<close>.\<close>

fun getVertices_loop ::
  "nat \<Rightarrow> HedgeMesh \<Rightarrow> nat \<Rightarrow> nat option \<Rightarrow> nat option list \<Rightarrow> nat option list result" where
  "getVertices_loop 0 m start h vs = OutOfFuel"
| "getVertices_loop (Suc n) m start h vs =
     (if h \<noteq> Some start
      then rbind (getE m h) (\<lambda>ed. getVertices_loop n m start (nxt ed) (vs @ [head ed]))
      else Ok vs)"

definition getVertices :: "nat \<Rightarrow> HedgeMesh \<Rightarrow> nat \<Rightarrow> nat option list result" where
  "getVertices n m f =
     rbind (getF m (Some f)) (\<lambda>this.
       case fh this of None \<Rightarrow> Ok []
       | Some start \<Rightarrow>
           rbind (getE m (Some start)) (\<lambda>ed.
             getVertices_loop n m start (nxt ed) [head ed]))"


text \<open>
  The vector of an edge as \<open>getArea\<close> reads it:
  \<open>getVectorBetweenPoints(e.head.pos, e.prev.head.pos)\<close>.
\<close>

definition edgeVector :: "HedgeMesh \<Rightarrow> nat option \<Rightarrow> vec3 result" where
  "edgeVector m e =
     rbind (getE m e) (\<lambda>ed.
     rbind (getV m (head ed)) (\<lambda>hv.
     rbind (getE m (prev ed)) (\<lambda>pe.
     rbind (getV m (head pe)) (\<lambda>pv.
       Ok (getVectorBetweenPoints (pos hv) (pos pv))))))"

text \<open>
  \<open>HFace.getArea\<close>: the loop \<open>for (let i = 0; i < edges.length-2; i++)\<close>; the
  bound is compared in the integers, since \<open>edges.length - 2\<close> is negative for a short
  list.
\<close>

function getArea_loop :: "HedgeMesh \<Rightarrow> nat list \<Rightarrow> nat \<Rightarrow> vec3 \<Rightarrow> vec3 result" where
  "getArea_loop m es i res =
     (if int i < int (length es) - 2
      then rbind (edgeVector m (Some (es ! i))) (\<lambda>v1.
           rbind (edgeVector m (Some (es ! (i + 1)))) (\<lambda>v2.
             getArea_loop m es (i + 1) (vadd res (vscale (vcross v1 v2) (Fin (1/2))))))
      else Ok res)"
  by pat_completeness auto
termination
  by (relation "measure (\<lambda>(m, es, i, res). length es - i)") auto

definition getArea :: "nat \<Rightarrow> HedgeMesh \<Rightarrow> nat \<Rightarrow> jsnum result" where
  "getArea n m f =
     rbind (getEdges n m f) (\<lambda>es.
     rbind (getArea_loop m es 0 (fromValues 0 0 0)) (\<lambda>res.
       Ok (vlength res)))"

text \<open>\<open>HFace.getNormal\<close>.\<close>

definition faceNormal :: "HedgeMesh \<Rightarrow> nat \<Rightarrow> vec3 result" where
  "faceNormal m f =
     rbind (getF m (Some f)) (\<lambda>this.
     rbind (getE m (fh this)) (\<lambda>h.
     rbind (getV m (head h)) (\<lambda>hv.
     rbind (getE m (prev h)) (\<lambda>pe.
     rbind (getV m (head pe)) (\<lambda>pv.
     rbind (getE m (nxt h)) (\<lambda>ne.
     rbind (getV m (head ne)) (\<lambda>nv.
       Ok (vnormalize (vcross (getVectorBetweenPoints (pos hv) (pos pv))
                              (getVectorBetweenPoints (pos nv) (pos hv)))))))))))"

section \<open>HVertex\<close>

text \<open>
  The first lines of both walks: nothing for a vertex without an edge, and
  \<open>if (this.h.head.ID == this.ID) this.h = this.h.next\<close>, which writes to the vertex.
  Two unassigned IDs are equal (\<open>undefined == undefined\<close>).
\<close>

definition setVh :: "HedgeMesh \<Rightarrow> nat \<Rightarrow> nat option \<Rightarrow> HedgeMesh" where
  "setVh m v r = m\<lparr>vertices := (vertices m)[v := (vertices m ! v)\<lparr>vh := r\<rparr>]\<rparr>"

definition repairH :: "HedgeMesh \<Rightarrow> nat \<Rightarrow> HedgeMesh result" where
  "repairH m v =
     rbind (getV m (Some v)) (\<lambda>this.
     rbind (getE m (vh this)) (\<lambda>h.
     rbind (getV m (head h)) (\<lambda>hv.
       Ok (if vID hv = vID this then setVh m v (nxt h) else m))))"

text \<open>
  The inner loop of the walks, \<open>while (edge.head.ID != this.ID) edge = edge.next\<close>, with
  \<open>tid\<close> for \<open>this.ID\<close>; it returns the edge it stops at.
\<close>

fun seek :: "nat \<Rightarrow> HedgeMesh \<Rightarrow> nat option \<Rightarrow> nat option \<Rightarrow> nat option result" where
  "seek 0 m tid edge = OutOfFuel"
| "seek (Suc n) m tid edge =
     rbind (getE m edge) (\<lambda>ed.
     rbind (getV m (head ed)) (\<lambda>hv.
       if vID hv \<noteq> tid then seek n m tid (nxt ed) else Ok edge))"

text \<open>
  The \<open>do ... while\<close> of \<open>getVertexNeighbors\<close>. The list is never empty at the test, and
  its first element may be \<open>null\<close>, whose \<open>ID\<close> cannot be read.
\<close>

fun neighbors_loop ::
  "nat \<Rightarrow> HedgeMesh \<Rightarrow> nat option \<Rightarrow> nat option \<Rightarrow> nat option list \<Rightarrow> nat option list result" where
  "neighbors_loop 0 m tid edge neighbors = OutOfFuel"
| "neighbors_loop (Suc n) m tid edge neighbors =
     rbind (getE m edge) (\<lambda>ed.
     rbind (seek n m tid edge) (\<lambda>edge1.
     rbind (getE m edge1) (\<lambda>ed1.
     rbind (getE m (pair ed1)) (\<lambda>ed2.
     rbind (getV m (head ed2)) (\<lambda>hv.
     rbind (getV m (hd (neighbors @ [head ed]))) (\<lambda>first.
       if vID hv \<noteq> vID first
       then neighbors_loop n m tid (pair ed1) (neighbors @ [head ed])
       else Ok (neighbors @ [head ed])))))))"

text \<open>
  \<open>HVertex.getVertexNeighbors\<close>; the mesh is returned too, for the write to
  \<open>this.h\<close>.
\<close>

definition getVertexNeighbors ::
  "nat \<Rightarrow> HedgeMesh \<Rightarrow> nat \<Rightarrow> (HedgeMesh \<times> nat option list) result" where
  "getVertexNeighbors n m v =
     rbind (getV m (Some v)) (\<lambda>this.
       if vh this = None then Ok (m, [])
       else rbind (repairH m v) (\<lambda>m'.
            rbind (getV m' (Some v)) (\<lambda>this'.
            rbind (neighbors_loop n m' (vID this') (vh this') []) (\<lambda>neighbors.
              Ok (m', neighbors)))))"

text \<open>
  The \<open>do ... while\<close> of \<open>getAttachedFaces\<close>, with its second hop when the paired edge has
  no face. The test reads \<open>edge.face.ID\<close> and \<open>faces[0].ID\<close>: both throw when there
  is no face, the second also when the list is still empty.
\<close>

fun faces_loop ::
  "nat \<Rightarrow> HedgeMesh \<Rightarrow> nat option \<Rightarrow> nat option \<Rightarrow> nat list \<Rightarrow> nat list result" where
  "faces_loop 0 m tid edge fs = OutOfFuel"
| "faces_loop (Suc n) m tid edge fs =
     rbind (getE m edge) (\<lambda>ed.
     let fs' = (case face ed of None \<Rightarrow> fs | Some f \<Rightarrow> fs @ [f]) in
     rbind (seek n m tid edge) (\<lambda>edge1.
     rbind (getE m edge1) (\<lambda>ed1.
     rbind (getE m (pair ed1)) (\<lambda>ed2.
     rbind (if face ed2 = None
            then rbind (seek n m tid (pair ed1)) (\<lambda>edge3.
                 rbind (getE m edge3) (\<lambda>ed3. Ok (pair ed3)))
            else Ok (pair ed1)) (\<lambda>edge'.
     rbind (getE m edge') (\<lambda>ed'.
     rbind (getF m (face ed')) (\<lambda>fc.
     rbind (getF m (case fs' of [] \<Rightarrow> None | f0 # _ \<Rightarrow> Some f0)) (\<lambda>first.
       if fID fc \<noteq> fID first
       then faces_loop n m tid edge' fs'
       else Ok fs'))))))))"

definition getAttachedFaces ::
  "nat \<Rightarrow> HedgeMesh \<Rightarrow> nat \<Rightarrow> (HedgeMesh \<times> nat list) result" where
  "getAttachedFaces n m v =
     rbind (getV m (Some v)) (\<lambda>this.
       if vh this = None then Ok (m, [])
       else rbind (repairH m v) (\<lambda>m'.
            rbind (getV m' (Some v)) (\<lambda>this'.
            rbind (faces_loop n m' (vID this') (vh this') []) (\<lambda>fs.
              Ok (m', fs)))))"

text \<open>
  \<open>HVertex.getNormal\<close>: the loop over the attached faces accumulates the scaled normals
  and the areas, and the sum is scaled by \<open>1/areaSum\<close>.
\<close>

fun getNormal_loop ::
  "nat \<Rightarrow> HedgeMesh \<Rightarrow> nat list \<Rightarrow> vec3 \<Rightarrow> jsnum \<Rightarrow> (vec3 \<times> jsnum) result" where
  "getNormal_loop n m [] normal areaSum = Ok (normal, areaSum)"
| "getNormal_loop n m (f # fs) normal areaSum =
     rbind (faceNormal m f) (\<lambda>fn.
     rbind (getArea n m f) (\<lambda>area.
       getNormal_loop n m fs (vadd normal (vscale fn area)) (nadd areaSum area)))"

definition getNormal :: "nat \<Rightarrow> HedgeMesh \<Rightarrow> nat \<Rightarrow> (HedgeMesh \<times> vec3) result" where
  "getNormal n m v =
     rbind (getAttachedFaces n m v) (\<lambda>(m', fs).
     rbind (getNormal_loop n m' fs (fromValues 0 0 0) (Fin 0)) (\<lambda>(normal, areaSum).
       Ok (m', vscale normal (ninv areaSum))))"

section \<open>Mesh creation: makeTriangle\<close>

definition makeNextPrev :: "nat \<Rightarrow> nat \<Rightarrow> HEdge list \<Rightarrow> HEdge list" where
  "makeNextPrev h1 h2 es =
     (let es1 = es[h1 := (es ! h1)\<lparr>nxt := Some h2\<rparr>]
      in es1[h2 := (es1 ! h2)\<lparr>prev := Some h1\<rparr>])"

definition linkEdges :: "nat \<Rightarrow> nat \<Rightarrow> HEdge list \<Rightarrow> HEdge list" where
  "linkEdges h1 h2 es =
     (let es1 = es[h1 := (es ! h1)\<lparr>pair := Some h2\<rparr>]
      in es1[h2 := (es1 ! h2)\<lparr>pair := Some h1\<rparr>])"

text \<open>One round of the loop \<open>for (let k = 0; k < 3; k++)\<close> of \<open>makeTriangle\<close>.\<close>

definition makeTriangle_step :: "nat \<Rightarrow> HedgeMesh \<Rightarrow> HedgeMesh" where
  "makeTriangle_step k m =
     (let vs = (vertices m)[k := (vertices m ! k)\<lparr>vh := Some k\<rparr>];
          es1 = (edges m)[k := (edges m ! k)\<lparr>head := Some ((k + 1) mod 3)\<rparr>];
          es2 = es1[k + 3 := (es1 ! (k + 3))\<lparr>head := Some k\<rparr>];
          es3 = es2[k := (es2 ! k)\<lparr>face := Some 0\<rparr>];
          es4 = makeNextPrev k ((k + 1) mod 3) es3;
          es5 = makeNextPrev (3 + (k + 1) mod 3) (3 + k) es4;
          es6 = linkEdges k (k + 3) es5
      in m\<lparr>vertices := vs, edges := es6\<rparr>)"

text \<open>
  \<open>makeTriangle\<close>. The vertices are built without a colour, so they are gray, and
  nothing gives them, the edges or the face an \<open>ID\<close>.
\<close>

definition makeTriangle :: HedgeMesh where
  "makeTriangle =
     fold makeTriangle_step [0, 1, 2]
       \<lparr>vertices = [newHVertex (fromValues 0 0 0) gray,
                    newHVertex (fromValues 1 0 0) gray,
                    newHVertex (fromValues 0 1 0) gray],
        edges = replicate 6 newHEdge,
        faces = [newHFace\<lparr>fh := Some 0\<rparr>],
        needsDisplayUpdate = True\<rparr>"


section \<open>Mesh construction: loadFileFromLines\<close>

text \<open>A \<open>for\<close> loop whose body may throw: the first exception ends it.\<close>

fun foldM :: "('a \<Rightarrow> 's \<Rightarrow> 's result) \<Rightarrow> 'a list \<Rightarrow> 's \<Rightarrow> 's result" where
  "foldM f [] s = Ok s"
| "foldM f (x # xs) s = rbind (f x s) (foldM f xs)"

text \<open>\<open>this.vertices[i]\<close>: \<open>undefined\<close> outside the array.\<close>

definition vertexAt :: "HedgeMesh \<Rightarrow> nat option \<Rightarrow> nat option" where
  "vertexAt m i =
     (case i of None \<Rightarrow> None
      | Some k \<Rightarrow> if k < length (vertices m) then Some k else None)"

text \<open>
  \<open>addHalfEdge(v1, v2, face)\<close>; the new edge is the last of \<open>this.edges\<close>. Writing
  \<open>v1.h\<close> throws when \<open>v1\<close> is \<open>undefined\<close>.
\<close>

definition addHalfEdge ::
  "HedgeMesh \<Rightarrow> nat option \<Rightarrow> nat option \<Rightarrow> nat \<Rightarrow> (HedgeMesh \<times> nat) result" where
  "addHalfEdge m v1 v2 f =
     (case vertexAt m v1 of None \<Rightarrow> Err TypeError
      | Some i \<Rightarrow>
          let hedge = length (edges m);
              m1 = setVh m i (Some hedge)
          in Ok (m1\<lparr>edges := edges m1 @ [newHEdge\<lparr>head := v2, face := Some f\<rparr>]\<rparr>, hedge))"

text \<open>
  The keys of \<open>str2Hedge\<close> are the strings \<open>v1.ID+"_"+v2.ID\<close>, here the pair of the
  two IDs; \<open>key.split("_")\<close> gives the pair back. An object keeps its keys in the order
  of their first assignment, as \<open>AList.update\<close> does.
\<close>

type_synonym edgeKey = "nat option \<times> nat option"

text \<open>Step 2: one vertex per position and colour, its \<open>ID\<close> its index.\<close>

definition addVertices :: "(vec3 \<times> vec3) list \<Rightarrow> HVertex list" where
  "addVertices pcs =
     fold (\<lambda>(p, c) vs. vs @ [(newHVertex p c)\<lparr>vID := Some (length vs)\<rparr>]) pcs []"

text \<open>Step 3, first inner loop: the half-edges of face \<open>f\<close>.\<close>

definition addFaceEdge ::
  "nat option list \<Rightarrow> nat \<Rightarrow> nat \<Rightarrow> HedgeMesh \<times> (edgeKey \<times> nat) list \<Rightarrow>
   (HedgeMesh \<times> (edgeKey \<times> nat) list) result" where
  "addFaceEdge vertsi f k st =
     (case st of (m, str2Hedge) \<Rightarrow>
        let v1 = vertsi ! k;
            v2 = vertsi ! ((k + 1) mod length vertsi)
        in rbind (addHalfEdge m v1 v2 f) (\<lambda>(m1, hedge).
           rbind (getV m1 v1) (\<lambda>a.
           rbind (getV m1 v2) (\<lambda>b.
             Ok (m1\<lparr>faces := (faces m1)[f := (faces m1 ! f)\<lparr>fh := Some hedge\<rparr>]\<rparr>,
                 AList.update (vID a, vID b) hedge str2Hedge)))))"

text \<open>
  Step 3, second inner loop: \<open>vertsi[k].h.next = vertsi[(k+1)%n].h\<close> and
  \<open>vertsi[(k+1)%n].h.prev = vertsi[k].h\<close>.
\<close>

definition linkFaceEdge :: "nat option list \<Rightarrow> nat \<Rightarrow> HedgeMesh \<Rightarrow> HedgeMesh result" where
  "linkFaceEdge vertsi k m =
     (let v1 = vertsi ! k;
          v2 = vertsi ! ((k + 1) mod length vertsi)
      in rbind (getV m v1) (\<lambda>a.
         rbind (getV m v2) (\<lambda>b.
         rbind (getE m (vh a)) (\<lambda>_.
         rbind (getE m (vh b)) (\<lambda>_.
           let h1 = the (vh a); h2 = the (vh b);
               es1 = (edges m)[h1 := (edges m ! h1)\<lparr>nxt := Some h2\<rparr>];
               es2 = es1[h2 := (es1 ! h2)\<lparr>prev := Some h1\<rparr>]
           in Ok (m\<lparr>edges := es2\<rparr>))))))"

definition addFace ::
  "nat list \<Rightarrow> HedgeMesh \<times> (edgeKey \<times> nat) list \<Rightarrow>
   (HedgeMesh \<times> (edgeKey \<times> nat) list) result" where
  "addFace vs st =
     (case st of (m, str2Hedge) \<Rightarrow>
        let f = length (faces m);
            m1 = m\<lparr>faces := faces m @ [newHFace]\<rparr>;
            vertsi = map (\<lambda>i. vertexAt m1 (Some i)) vs
        in rbind (foldM (addFaceEdge vertsi f) [0..<length vertsi] (m1, str2Hedge))
             (\<lambda>(m2, str2Hedge2).
           rbind (foldM (linkFaceEdge vertsi) [0..<length vertsi] m2) (\<lambda>m3.
             Ok (m3, str2Hedge2))))"

text \<open>
  Step 4: the pairing pass, one round for an entry \<open>(key, h1)\<close> of \<open>str2Hedge\<close>;
  \<open>boundaryEdges\<close> is keyed by the second ID of the key.
\<close>

definition pairEdge ::
  "(edgeKey \<times> nat) list \<Rightarrow> edgeKey \<times> nat \<Rightarrow> HedgeMesh \<times> (nat option \<times> nat) list \<Rightarrow>
   HedgeMesh \<times> (nat option \<times> nat) list" where
  "pairEdge str2Hedge entry st =
     (case entry of ((a, b), h1) \<Rightarrow> case st of (m, boundaryEdges) \<Rightarrow>
        (case map_of str2Hedge (b, a) of
           Some other \<Rightarrow>
             (m\<lparr>edges := (edges m)[h1 := (edges m ! h1)\<lparr>pair := Some other\<rparr>]\<rparr>,
              boundaryEdges)
         | None \<Rightarrow>
             let h2 = length (edges m);
                 es1 = (edges m)[h1 := (edges m ! h1)\<lparr>pair := Some h2\<rparr>]
             in (m\<lparr>edges := es1 @ [newHEdge\<lparr>pair := Some h1, head := vertexAt m a\<rparr>]\<rparr>,
                 AList.update b h2 boundaryEdges)))"

text \<open>
  The keys of \<open>boundaryEdges\<close> are IDs written as strings, and \<open>for ... in\<close> visits
  such keys in ascending numeric order, whatever the order of assignment; a key
  \<open>"undefined"\<close> would come last.
\<close>

definition keyOrder :: "(nat option \<times> nat) list \<Rightarrow> nat option list" where
  "keyOrder al =
     map Some (sort (List.map_filter fst al)) @ filter (\<lambda>k. k = None) (map fst al)"

text \<open>Step 5: the boundary linking pass, one round for a key of \<open>boundaryEdges\<close>.\<close>

definition linkBoundary ::
  "(nat option \<times> nat) list \<Rightarrow> nat option \<Rightarrow> HedgeMesh \<Rightarrow> HedgeMesh result" where
  "linkBoundary boundaryEdges key m =
     (let e = map_of boundaryEdges key in
      rbind (getE m e) (\<lambda>ed.
        if nxt ed = None
        then rbind (getV m (head ed)) (\<lambda>hv.
             let e2 = map_of boundaryEdges (vID hv);
                 i = the e;
                 m1 = m\<lparr>edges := (edges m)[i := (edges m ! i)\<lparr>nxt := e2\<rparr>]\<rparr>
             in rbind (getE m1 e2) (\<lambda>ed2.
                  Ok (m1\<lparr>edges := (edges m1)[the e2 := ed2\<lparr>prev := e\<rparr>]\<rparr>)))
        else Ok m))"

text \<open>Step 6: the edges and the faces are numbered.\<close>

definition numberAll :: "HedgeMesh \<Rightarrow> HedgeMesh" where
  "numberAll m =
     m\<lparr>edges := map (\<lambda>(i, e). e\<lparr>eID := Some i\<rparr>) (enumerate 0 (edges m)),
       faces := map (\<lambda>(i, f). f\<lparr>fID := Some i\<rparr>) (enumerate 0 (faces m)),
       needsDisplayUpdate := True\<rparr>"

text \<open>
  \<open>loadFileFromLines\<close> from Step 1.5 on. Step 1 belongs to \<open>BasicMesh\<close>, which is not
  under src/: its result \<open>res\<close> is the argument, the positions with their colours and
  the faces as lists of vertex indices.
\<close>

definition loadFileFromLines ::
  "(vec3 \<times> vec3) list \<Rightarrow> nat list list \<Rightarrow> HedgeMesh result" where
  "loadFileFromLines pcs fs =
     (let m0 = \<lparr>vertices = addVertices pcs, edges = [], faces = [],
                needsDisplayUpdate = False\<rparr>
      in rbind (foldM addFace fs (m0, [])) (\<lambda>(m1, str2Hedge).
         case fold (pairEdge str2Hedge) str2Hedge (m1, []) of (m2, boundaryEdges) \<Rightarrow>
         rbind (foldM (linkBoundary boundaryEdges) (keyOrder boundaryEdges) m2) (\<lambda>m3.
           Ok (numberAll m3))))"

section \<open>Geometric and topological tasks\<close>





text \<open>
  \<open>getBoundaryCycles\<close>: the inner loop
  \<open>while (iterated.head.ID != edge.head.ID)\<close>, with \<open>hid\<close> for \<open>edge.head.ID\<close>.
\<close>

definition setChecked :: "HedgeMesh \<Rightarrow> nat \<Rightarrow> HedgeMesh" where
  "setChecked m e = m\<lparr>edges := (edges m)[e := (edges m ! e)\<lparr>isChecked := True\<rparr>]\<rparr>"

fun cycle_loop ::
  "nat \<Rightarrow> HedgeMesh \<Rightarrow> nat option \<Rightarrow> nat option \<Rightarrow> nat list \<Rightarrow> (HedgeMesh \<times> nat list) result" where
  "cycle_loop 0 m hid iterated cycle = OutOfFuel"
| "cycle_loop (Suc n) m hid iterated cycle =
     rbind (getE m iterated) (\<lambda>ed.
     rbind (getV m (head ed)) (\<lambda>hv.
       if vID hv \<noteq> hid
       then cycle_loop n (setChecked m (the iterated)) hid (nxt ed) (cycle @ [the iterated])
       else Ok (m, cycle)))"

text \<open>One round of the loop over \<open>this.edges\<close>.\<close>

definition cycle_step ::
  "nat \<Rightarrow> nat \<Rightarrow> HedgeMesh \<times> nat list list \<Rightarrow> (HedgeMesh \<times> nat list list) result" where
  "cycle_step n e st =
     (case st of (m, cycles) \<Rightarrow>
        rbind (getE m (Some e)) (\<lambda>edge.
          if face edge = None \<and> \<not> isChecked edge
          then rbind (getV m (head edge)) (\<lambda>hv.
               rbind (cycle_loop n (setChecked m e) (vID hv) (nxt edge) [e]) (\<lambda>(m1, cycle).
                 Ok (m1, cycles @ [cycle])))
          else Ok (m, cycles)))"

definition getBoundaryCycles :: "nat \<Rightarrow> HedgeMesh \<Rightarrow> (HedgeMesh \<times> nat list list) result" where
  "getBoundaryCycles n m =
     (let m0 = m\<lparr>edges := map (\<lambda>e. e\<lparr>isChecked := False\<rparr>) (edges m)\<rparr>
      in foldM (cycle_step n) [0..<length (edges m0)] (m0, []))"


section \<open>The properties, in the words of the specification\<close>

text \<open>Component-wise subtraction of positions.\<close>

definition vsub :: "vec3 \<Rightarrow> vec3 \<Rightarrow> vec3" where
  "vsub a b = (case a of (ax, ay, az) \<Rightarrow> case b of (bx, by, bz) \<Rightarrow>
     (nsub ax bx, nsub ay by, nsub az bz))"

text \<open>
  An edge whose head, previous edge and the head of that edge are all set: the edge has
  both its end points.
\<close>

definition linked :: "HedgeMesh \<Rightarrow> nat \<Rightarrow> bool" where
  "linked m e =
     (e < length (edges m) \<and>
      (case head (edges m ! e) of None \<Rightarrow> False
       | Some hv \<Rightarrow> hv < length (vertices m) \<and>
           (case prev (edges m ! e) of None \<Rightarrow> False
            | Some pe \<Rightarrow> pe < length (edges m) \<and>
                (case head (edges m ! pe) of None \<Rightarrow> False
                 | Some pv \<Rightarrow> pv < length (vertices m)))))"

text \<open>The vector of an edge: the position of its head minus that of its tail, \<open>prev.head\<close>.\<close>

definition headMinusTail :: "HedgeMesh \<Rightarrow> nat \<Rightarrow> vec3" where
  "headMinusTail m e =
     vsub (pos (vertices m ! the (head (edges m ! e))))
          (pos (vertices m ! the (head (edges m ! the (prev (edges m ! e))))))"

text \<open>
  The vector sum of \<open>0.5 * cross(edge_i, edge_{i+1})\<close> over the \<open>n - 2\<close> consecutive
  pairs of \<open>n\<close> edge vectors, added up from the left.
\<close>

definition areaVectorSum :: "vec3 list \<Rightarrow> vec3" where
  "areaVectorSum evs =
     foldl vadd (fromValues 0 0 0)
       (map (\<lambda>i. vscale (vcross (evs ! i) (evs ! (i + 1))) (Fin (1/2)))
          [0..<length evs - 2])"

text \<open>
  The mesh that \<open>loadFileFromLines\<close> builds from three positions with their colours and
  the one face \<open>[0, 1, 2]\<close> (lemma \<open>load_triangle\<close>).
\<close>

definition triangleMesh :: "vec3 \<Rightarrow> vec3 \<Rightarrow> vec3 \<Rightarrow> vec3 \<Rightarrow> vec3 \<Rightarrow> vec3 \<Rightarrow> HedgeMesh" where
  "triangleMesh p0 c0 p1 c1 p2 c2 =
     \<lparr>vertices =
        [\<lparr>pos = p0, color = c0, vh = Some 0, vID = Some 0\<rparr>,
         \<lparr>pos = p1, color = c1, vh = Some 1, vID = Some 1\<rparr>,
         \<lparr>pos = p2, color = c2, vh = Some 2, vID = Some 2\<rparr>],
      edges =
        [\<lparr>head = Some 1, face = Some 0, pair = Some 3, prev = Some 2, nxt = Some 1,
           eID = Some 0, isChecked = False\<rparr>,
         \<lparr>head = Some 2, face = Some 0, pair = Some 4, prev = Some 0, nxt = Some 2,
           eID = Some 1, isChecked = False\<rparr>,
         \<lparr>head = Some 0, face = Some 0, pair = Some 5, prev = Some 1, nxt = Some 0,
           eID = Some 2, isChecked = False\<rparr>,
         \<lparr>head = Some 0, face = None, pair = Some 0, prev = Some 4, nxt = Some 5,
           eID = Some 3, isChecked = False\<rparr>,
         \<lparr>head = Some 1, face = None, pair = Some 1, prev = Some 5, nxt = Some 3,
           eID = Some 4, isChecked = False\<rparr>,
         \<lparr>head = Some 2, face = None, pair = Some 2, prev = Some 3, nxt = Some 4,
           eID = Some 5, isChecked = False\<rparr>],
      faces = [\<lparr>fh = Some 2, fID = Some 0\<rparr>],
      needsDisplayUpdate = True\<rparr>"

text \<open>
  A number that is not negative (\<open>NaN\<close> passes: nothing is known of it), and a
  number that is zero or \<open>NaN\<close>.
\<close>

fun nonneg :: "jsnum \<Rightarrow> bool" where
  "nonneg (Fin a) = (0 \<le> a)"
| "nonneg PInf = True"
| "nonneg NInf = False"
| "nonneg NaN = True"

definition zeroish :: "jsnum \<Rightarrow> bool" where
  "zeroish x = (x = Fin 0 \<or> x = NaN)"

definition vzeroish :: "vec3 \<Rightarrow> bool" where
  "vzeroish a = (case a of (x, y, z) \<Rightarrow> zeroish x \<and> zeroish y \<and> zeroish z)"

text \<open>The triangle whose three vertices are at the origin.\<close>

definition pointMesh :: HedgeMesh where
  "pointMesh = triangleMesh (fromValues 0 0 0) gray (fromValues 0 0 0) gray (fromValues 0 0 0) gray"

text \<open>
  The four positions of the examples with two triangles, and the mesh that
  \<open>loadFileFromLines\<close> returns for the faces \<open>[0, 1, 2]\<close> and \<open>[0, 1, 3]\<close>, which both
  have the directed edge from vertex 0 to vertex 1.
\<close>

definition fourPoints :: "(vec3 \<times> vec3) list" where
  "fourPoints = [(fromValues 0 0 0, gray), (fromValues 1 0 0, gray), (fromValues 0 1 0, gray),
     (fromValues 0 0 1, gray)]"

definition dupEdges :: "HEdge list" where
  "dupEdges =
     [\<lparr>head = Some 1, face = Some 0, pair = None, prev = Some 2, nxt = Some 1,
        eID = Some 0, isChecked = False\<rparr>,
      \<lparr>head = Some 2, face = Some 0, pair = Some 7, prev = Some 0, nxt = Some 2,
        eID = Some 1, isChecked = False\<rparr>,
      \<lparr>head = Some 0, face = Some 0, pair = Some 8, prev = Some 1, nxt = Some 0,
        eID = Some 2, isChecked = False\<rparr>,
      \<lparr>head = Some 1, face = Some 1, pair = Some 6, prev = Some 5, nxt = Some 4,
        eID = Some 3, isChecked = False\<rparr>,
      \<lparr>head = Some 3, face = Some 1, pair = Some 9, prev = Some 3, nxt = Some 5,
        eID = Some 4, isChecked = False\<rparr>,
      \<lparr>head = Some 0, face = Some 1, pair = Some 10, prev = Some 4, nxt = Some 3,
        eID = Some 5, isChecked = False\<rparr>,
      \<lparr>head = Some 0, face = None, pair = Some 3, prev = Some 9, nxt = Some 10,
        eID = Some 6, isChecked = False\<rparr>,
      \<lparr>head = Some 1, face = None, pair = Some 1, prev = None, nxt = Some 6,
        eID = Some 7, isChecked = False\<rparr>,
      \<lparr>head = Some 2, face = None, pair = Some 2, prev = None, nxt = None,
        eID = Some 8, isChecked = False\<rparr>,
      \<lparr>head = Some 1, face = None, pair = Some 4, prev = Some 10, nxt = Some 6,
        eID = Some 9, isChecked = False\<rparr>,
      \<lparr>head = Some 3, face = None, pair = Some 5, prev = Some 6, nxt = Some 9,
        eID = Some 10, isChecked = False\<rparr>]"

text \<open>
  Two triangles that share the vertex 0 and nothing else, the faces \<open>[0, 1, 2]\<close> and
  \<open>[0, 3, 4]\<close>: the half-edges that \<open>loadFileFromLines\<close> returns for them.
\<close>

definition fivePoints :: "(vec3 \<times> vec3) list" where
  "fivePoints = [(fromValues 0 0 0, gray), (fromValues 1 0 0, gray), (fromValues 0 1 0, gray),
     (fromValues 0 0 1, gray), (fromValues 1 0 1, gray)]"

definition bowtieEdges :: "HEdge list" where
  "bowtieEdges =
     [\<lparr>head = Some 1, face = Some 0, pair = Some 6, prev = Some 2, nxt = Some 1,
        eID = Some 0, isChecked = False\<rparr>,
      \<lparr>head = Some 2, face = Some 0, pair = Some 7, prev = Some 0, nxt = Some 2,
        eID = Some 1, isChecked = False\<rparr>,
      \<lparr>head = Some 0, face = Some 0, pair = Some 8, prev = Some 1, nxt = Some 0,
        eID = Some 2, isChecked = False\<rparr>,
      \<lparr>head = Some 3, face = Some 1, pair = Some 9, prev = Some 5, nxt = Some 4,
        eID = Some 3, isChecked = False\<rparr>,
      \<lparr>head = Some 4, face = Some 1, pair = Some 10, prev = Some 3, nxt = Some 5,
        eID = Some 4, isChecked = False\<rparr>,
      \<lparr>head = Some 0, face = Some 1, pair = Some 11, prev = Some 4, nxt = Some 3,
        eID = Some 5, isChecked = False\<rparr>,
      \<lparr>head = Some 0, face = None, pair = Some 0, prev = Some 7, nxt = Some 11,
        eID = Some 6, isChecked = False\<rparr>,
      \<lparr>head = Some 1, face = None, pair = Some 1, prev = None, nxt = Some 6,
        eID = Some 7, isChecked = False\<rparr>,
      \<lparr>head = Some 2, face = None, pair = Some 2, prev = None, nxt = None,
        eID = Some 8, isChecked = False\<rparr>,
      \<lparr>head = Some 0, face = None, pair = Some 3, prev = Some 10, nxt = Some 11,
        eID = Some 9, isChecked = False\<rparr>,
      \<lparr>head = Some 3, face = None, pair = Some 4, prev = Some 11, nxt = Some 9,
        eID = Some 10, isChecked = False\<rparr>,
      \<lparr>head = Some 4, face = None, pair = Some 5, prev = Some 9, nxt = Some 10,
        eID = Some 11, isChecked = False\<rparr>]"

definition bowtie :: HedgeMesh where
  "bowtie =
     \<lparr>vertices =
        [\<lparr>pos = fromValues 0 0 0, color = gray, vh = Some 3, vID = Some 0\<rparr>,
         \<lparr>pos = fromValues 1 0 0, color = gray, vh = Some 1, vID = Some 1\<rparr>,
         \<lparr>pos = fromValues 0 1 0, color = gray, vh = Some 2, vID = Some 2\<rparr>,
         \<lparr>pos = fromValues 0 0 1, color = gray, vh = Some 4, vID = Some 3\<rparr>,
         \<lparr>pos = fromValues 1 0 1, color = gray, vh = Some 5, vID = Some 4\<rparr>],
      edges = bowtieEdges,
      faces = [\<lparr>fh = Some 2, fID = Some 0\<rparr>, \<lparr>fh = Some 5, fID = Some 1\<rparr>],
      needsDisplayUpdate = True\<rparr>"


text \<open>
  Two meshes with the same edges and, vertex by vertex, the same \<open>ID\<close> and position,
  and the same stored edge outside the set \<open>A\<close>.
\<close>

definition agree :: "nat set \<Rightarrow> HedgeMesh \<Rightarrow> HedgeMesh \<Rightarrow> bool" where
  "agree A m ma =
     (edges ma = edges m \<and> length (vertices ma) = length (vertices m) \<and>
      (\<forall>i < length (vertices m).
         vID (vertices ma ! i) = vID (vertices m ! i) \<and>
         pos (vertices ma ! i) = pos (vertices m ! i) \<and>
         (i \<notin> A \<longrightarrow> vh (vertices ma ! i) = vh (vertices m ! i))))"


text \<open>
  A manifold mesh with no dangling half-edge. Every half-edge has its head, pair, previous
  and next edge, all inside the mesh; the pair of its pair, the next of its previous and
  the previous of its next edge are the edge itself; and the head of its pair is its
  tail, the head of its previous edge. Every vertex has its index as \<open>ID\<close>, and the edge
  it stores, if any, starts at the vertex.
\<close>

definition edgeOK :: "HedgeMesh \<Rightarrow> nat \<Rightarrow> bool" where
  "edgeOK m e =
     (case (head (edges m ! e), pair (edges m ! e), prev (edges m ! e), nxt (edges m ! e)) of
        (Some h, Some p, Some r, Some n) \<Rightarrow>
          h < length (vertices m) \<and> p < length (edges m) \<and> r < length (edges m) \<and>
          n < length (edges m) \<and> pair (edges m ! p) = Some e \<and> nxt (edges m ! r) = Some e \<and>
          prev (edges m ! n) = Some e \<and> head (edges m ! p) = head (edges m ! r)
      | _ \<Rightarrow> False)"

definition vertexOK :: "HedgeMesh \<Rightarrow> nat \<Rightarrow> bool" where
  "vertexOK m v =
     (vID (vertices m ! v) = Some v \<and>
      (case vh (vertices m ! v) of None \<Rightarrow> True
       | Some e \<Rightarrow> e < length (edges m) \<and>
           (case prev (edges m ! e) of None \<Rightarrow> False
            | Some r \<Rightarrow> r < length (edges m) \<and> head (edges m ! r) = Some v)))"

definition manifoldMesh :: "HedgeMesh \<Rightarrow> bool" where
  "manifoldMesh m =
     ((\<forall>e < length (edges m). edgeOK m e) \<and> (\<forall>v < length (vertices m). vertexOK m v))"

text \<open>The fields of an edge of such a mesh, as total functions on the edge indices.\<close>

definition nx :: "HedgeMesh \<Rightarrow> nat \<Rightarrow> nat" where
  "nx m e = the (nxt (edges m ! e))"

definition pv :: "HedgeMesh \<Rightarrow> nat \<Rightarrow> nat" where
  "pv m e = the (prev (edges m ! e))"

definition pr :: "HedgeMesh \<Rightarrow> nat \<Rightarrow> nat" where
  "pr m e = the (pair (edges m ! e))"

text \<open>The edges that start at the vertex \<open>v\<close>: their previous edge ends there.\<close>

definition outgoing :: "HedgeMesh \<Rightarrow> nat \<Rightarrow> nat set" where
  "outgoing m v = {e. e < length (edges m) \<and> head (edges m ! pv m e) = Some v}"

text \<open>
  Where the inner loop of the walks stops when it starts at \<open>e\<close>: the first edge along
  \<open>next\<close> that ends at \<open>v\<close>; and the edge of the next round, its pair.
\<close>

definition seekTarget :: "HedgeMesh \<Rightarrow> nat \<Rightarrow> nat \<Rightarrow> nat" where
  "seekTarget m v e = ((nx m) ^^ (LEAST d. head (edges m ! ((nx m ^^ d) e)) = Some v)) e"

definition spoke :: "HedgeMesh \<Rightarrow> nat \<Rightarrow> nat \<Rightarrow> nat" where
  "spoke m v e = pr m (seekTarget m v e)"

text \<open>
  The faces of such a mesh: a half-edge that has a face has one of the mesh; the next edge
  of a half-edge without a face has none either, and its pair has one; and the edge that
  a vertex stores has a face.
\<close>

definition edgeFaceOK :: "HedgeMesh \<Rightarrow> nat \<Rightarrow> bool" where
  "edgeFaceOK m e =
     (case face (edges m ! e) of
        Some f \<Rightarrow> f < length (faces m)
      | None \<Rightarrow> face (edges m ! nx m e) = None \<and> face (edges m ! pr m e) \<noteq> None)"

definition facedMesh :: "HedgeMesh \<Rightarrow> bool" where
  "facedMesh m =
     ((\<forall>e < length (edges m). edgeFaceOK m e) \<and>
      (\<forall>v < length (vertices m).
         case vh (vertices m ! v) of None \<Rightarrow> True | Some e \<Rightarrow> face (edges m ! e) \<noteq> None))"

text \<open>
  No half-edge and its pair are both without a face: a half-edge without a face has a pair
  in the mesh, and the pair has a face.
\<close>

definition pairedWithFace :: "HedgeMesh \<Rightarrow> bool" where
  "pairedWithFace m =
     (\<forall>e < length (edges m). face (edges m ! e) = None \<longrightarrow>
        (\<exists>p. pair (edges m ! e) = Some p \<and> p < length (edges m) \<and>
             face (edges m ! p) \<noteq> None))"

text \<open>Every half-edge has a face, and the table of half-edges points into the mesh.\<close>

definition allFaced :: "HedgeMesh \<Rightarrow> bool" where
  "allFaced m = (\<forall>e < length (edges m). face (edges m ! e) \<noteq> None)"

definition tableInside :: "HedgeMesh \<Rightarrow> ('k \<times> nat) list \<Rightarrow> bool" where
  "tableInside m t = (\<forall>(k, h) \<in> set t. h < length (edges m))"

definition facedState :: "HedgeMesh \<times> ('k \<times> nat) list \<Rightarrow> bool" where
  "facedState st = (allFaced (fst st) \<and> tableInside (fst st) (snd st))"

text \<open>The state of the pairing pass: the table points at half-edges with a face.\<close>

definition tableFaced :: "HedgeMesh \<Rightarrow> ('k \<times> nat) list \<Rightarrow> bool" where
  "tableFaced m t = (\<forall>(k, h) \<in> set t. h < length (edges m) \<and> face (edges m ! h) \<noteq> None)"

definition pairedState :: "('k \<times> nat) list \<Rightarrow> HedgeMesh \<times> 'b \<Rightarrow> bool" where
  "pairedState t st = (pairedWithFace (fst st) \<and> tableFaced (fst st) t)"

text \<open>
  The directed edges of a face, in the order of its vertices: from each vertex to the next,
  the last one back to the first.
\<close>

definition dedges :: "nat list \<Rightarrow> (nat \<times> nat) list" where
  "dedges vs = map (\<lambda>k. (vs ! k, vs ! ((k + 1) mod length vs))) [0..<length vs]"

text \<open>
  The state after \<open>j\<close> rounds of the first inner loop of Step 3 for the face \<open>f\<close> with
  the vertices \<open>vs\<close>, started in the mesh \<open>m1\<close> with the table \<open>t\<close>.
\<close>

definition added ::
  "HedgeMesh \<Rightarrow> (edgeKey \<times> nat) list \<Rightarrow> nat list \<Rightarrow> nat \<Rightarrow> nat \<Rightarrow>
   HedgeMesh \<times> (edgeKey \<times> nat) list \<Rightarrow> bool" where
  "added m1 t vs f j st =
     (case st of (m', t') \<Rightarrow>
        edges m' = edges m1 @
          map (\<lambda>k. newHEdge\<lparr>head := Some (snd (dedges vs ! k)), face := Some f\<rparr>) [0..<j] \<and>
        t' = t @ map (\<lambda>k. ((Some (fst (dedges vs ! k)), Some (snd (dedges vs ! k))),
                            length (edges m1) + k)) [0..<j] \<and>
        length (vertices m') = length (vertices m1) \<and>
        (\<forall>i < length (vertices m1). vID (vertices m' ! i) = vID (vertices m1 ! i)) \<and>
        (\<forall>k < j. vh (vertices m' ! (vs ! k)) = Some (length (edges m1) + k)) \<and>
        (\<forall>i < length (vertices m1). i \<notin> set (take j vs) \<longrightarrow>
           vh (vertices m' ! i) = vh (vertices m1 ! i)) \<and>
        length (faces m') = length (faces m1))"

text \<open>
  The state after \<open>j\<close> rounds of the second inner loop of Step 3, started in the mesh
  \<open>m2\<close> whose last \<open>n\<close> half-edges, from the index \<open>b\<close> on, are those of the face.
\<close>

definition chained :: "HedgeMesh \<Rightarrow> nat \<Rightarrow> nat \<Rightarrow> nat \<Rightarrow> HedgeMesh \<Rightarrow> bool" where
  "chained m2 b n j m' =
     (vertices m' = vertices m2 \<and> faces m' = faces m2 \<and>
      length (edges m') = length (edges m2) \<and>
      (\<forall>e < length (edges m2).
         head (edges m' ! e) = head (edges m2 ! e) \<and> face (edges m' ! e) = face (edges m2 ! e) \<and>
         pair (edges m' ! e) = pair (edges m2 ! e)) \<and>
      (\<forall>e < b. edges m' ! e = edges m2 ! e) \<and>
      (\<forall>k < n. nxt (edges m' ! (b + k)) =
         (if k < j then Some (b + (k + 1) mod n) else nxt (edges m2 ! (b + k)))) \<and>
      (\<forall>k < n. prev (edges m' ! (b + k)) =
         (if \<exists>i<j. (i + 1) mod n = k then Some (b + (k + n - 1) mod n)
          else prev (edges m2 ! (b + k)))))"

text \<open>
  The directed edges that the faces list, in the order in which Step 3 makes their
  half-edges: the half-edge \<open>e\<close> is made for \<open>soupEdges fs ! e\<close>.
\<close>

definition soupEdges :: "nat list list \<Rightarrow> (nat \<times> nat) list" where
  "soupEdges fs = concat (map dedges fs)"

text \<open>
  The state of Step 3 when the half-edges made so far have the keys \<open>K\<close>: no half-edge has
  a pair yet, and the table holds, for a key, the last half-edge made with it.
\<close>

definition lastKeyed :: "edgeKey list \<Rightarrow> HedgeMesh \<times> (edgeKey \<times> nat) list \<Rightarrow> bool" where
  "lastKeyed K st =
     (case st of (m, t) \<Rightarrow>
        length (edges m) = length K \<and> distinct (map fst t) \<and>
        (\<forall>i < length (vertices m). vID (vertices m ! i) = Some i) \<and>
        (\<forall>e < length K. pair (edges m ! e) = None) \<and>
        (\<forall>(k, e) \<in> set t. e < length K \<and> K ! e = k \<and>
           (\<forall>e'. e < e' \<and> e' < length K \<longrightarrow> K ! e' \<noteq> k)))"

text \<open>
  The state of Step 3 after the faces whose directed edges are \<open>D\<close>, one half-edge for
  each: the half-edge \<open>e\<close> runs from \<open>fst (D ! e)\<close> to \<open>snd (D ! e)\<close>, has a face and
  no pair yet, and is chained with its next and previous edge; the table has one entry for
  each, in their order; a vertex has its index as \<open>ID\<close>.
\<close>

definition tableOf :: "(nat \<times> nat) list \<Rightarrow> (edgeKey \<times> nat) list" where
  "tableOf D = map (\<lambda>e. ((Some (fst (D ! e)), Some (snd (D ! e))), e)) [0..<length D]"

definition interiorOK :: "HedgeMesh \<Rightarrow> (nat \<times> nat) list \<Rightarrow> nat \<Rightarrow> bool" where
  "interiorOK m D e =
     (fst (D ! e) < length (vertices m) \<and> snd (D ! e) < length (vertices m) \<and>
      head (edges m ! e) = Some (snd (D ! e)) \<and> pair (edges m ! e) = None \<and>
      face (edges m ! e) \<noteq> None \<and>
      (case nxt (edges m ! e) of None \<Rightarrow> False
       | Some n \<Rightarrow> n < length D \<and> prev (edges m ! n) = Some e) \<and>
      (case prev (edges m ! e) of None \<Rightarrow> False
       | Some r \<Rightarrow> r < length D \<and> nxt (edges m ! r) = Some e))"

definition built :: "(nat \<times> nat) list \<Rightarrow> HedgeMesh \<times> (edgeKey \<times> nat) list \<Rightarrow> bool" where
  "built D st =
     (case st of (m, t) \<Rightarrow>
        length (edges m) = length D \<and> t = tableOf D \<and>
        (\<forall>i < length (vertices m). vID (vertices m ! i) = Some i) \<and>
        (\<forall>e < length D. interiorOK m D e))"

text \<open>
  A directed edge without its opposite among the directed edges \<open>D\<close>: its half-edge gets a
  new half-edge without a face as its pair.
\<close>

definition unp :: "(nat \<times> nat) list \<Rightarrow> nat \<Rightarrow> bool" where
  "unp D e = (prod.swap (D ! e) \<notin> set D)"

text \<open>
  The state of Step 4 after \<open>j\<close> rounds: what the pair of the half-edge \<open>e\<close> of a face is,
  and the whole state, started in the mesh \<open>m1\<close>.
\<close>

definition pairOK ::
  "(nat \<times> nat) list \<Rightarrow> nat \<Rightarrow> HedgeMesh \<Rightarrow> (nat option \<times> nat) list \<Rightarrow> nat \<Rightarrow> bool" where
  "pairOK D j m be e =
     (if j \<le> e then pair (edges m ! e) = None
      else if unp D e
      then (\<exists>h. length D \<le> h \<and> h < length (edges m) \<and> pair (edges m ! e) = Some h \<and>
              map_of be (Some (snd (D ! e))) = Some h \<and>
              edges m ! h = newHEdge\<lparr>pair := Some e, head := Some (fst (D ! e))\<rparr>)
      else (\<exists>p < length D. D ! p = prod.swap (D ! e) \<and> pair (edges m ! e) = Some p))"

definition paired4 ::
  "(nat \<times> nat) list \<Rightarrow> HedgeMesh \<Rightarrow> nat \<Rightarrow> HedgeMesh \<times> (nat option \<times> nat) list \<Rightarrow> bool" where
  "paired4 D m1 j st =
     (case st of (m, be) \<Rightarrow>
        vertices m = vertices m1 \<and> faces m = faces m1 \<and> length D \<le> length (edges m) \<and>
        distinct (map fst be) \<and>
        (\<forall>e < length D.
           head (edges m ! e) = head (edges m1 ! e) \<and> face (edges m ! e) = face (edges m1 ! e) \<and>
           nxt (edges m ! e) = nxt (edges m1 ! e) \<and> prev (edges m ! e) = prev (edges m1 ! e)) \<and>
        (\<forall>e < length D. pairOK D j m be e) \<and>
        (\<forall>h. length D \<le> h \<and> h < length (edges m) \<longrightarrow>
           (\<exists>e < j. unp D e \<and> pair (edges m ! e) = Some h)) \<and>
        (\<forall>(k, h) \<in> set be. \<exists>e < j. unp D e \<and> k = Some (snd (D ! e)) \<and>
           pair (edges m ! e) = Some h))"

text \<open>
  The state of Step 5 when the keys \<open>ks\<close> of \<open>boundaryEdges\<close> have been visited, started in
  the mesh \<open>m2\<close> of Step 4: the half-edge without a face that pairs with the half-edge \<open>e\<close>
  is \<open>pr m2 e\<close>; it has its next edge once its key, the head of \<open>e\<close>, has been visited, and
  that edge then has it as its previous edge.
\<close>

definition linked5 ::
  "(nat \<times> nat) list \<Rightarrow> HedgeMesh \<Rightarrow> nat option list \<Rightarrow> HedgeMesh \<Rightarrow> bool" where
  "linked5 D m2 ks m =
     (vertices m = vertices m2 \<and> faces m = faces m2 \<and> length (edges m) = length (edges m2) \<and>
      (\<forall>x < length (edges m2).
         head (edges m ! x) = head (edges m2 ! x) \<and> pair (edges m ! x) = pair (edges m2 ! x) \<and>
         face (edges m ! x) = face (edges m2 ! x)) \<and>
      (\<forall>x < length D. edges m ! x = edges m2 ! x) \<and>
      (\<forall>e < length D. unp D e \<longrightarrow>
         (if Some (snd (D ! e)) \<in> set ks
          then (\<exists>e' < length D. unp D e' \<and> snd (D ! e') = fst (D ! e) \<and>
                  nxt (edges m ! pr m2 e) = Some (pr m2 e'))
          else nxt (edges m ! pr m2 e) = None)) \<and>
      (\<forall>e < length D. \<forall>e' < length D.
         unp D e \<and> unp D e' \<and> snd (D ! e') = fst (D ! e) \<and> Some (snd (D ! e)) \<in> set ks \<longrightarrow>
         prev (edges m ! pr m2 e') = Some (pr m2 e)))"

section \<open>Evaluation on literal meshes\<close>

lemma list_update_Cons_numeral [simp]:
  "(x # xs)[numeral v := y] = x # xs[pred_numeral v := y]"
  by (simp add: numeral_eq_Suc)

lemma replicate_numeral [simp]:
  "replicate (numeral v) x = x # replicate (pred_numeral v) x"
  by (simp add: numeral_eq_Suc)

lemma makeTriangle_edges:
  "edges makeTriangle =
     [\<lparr>head = Some 1, face = Some 0, pair = Some 3, prev = Some 2, nxt = Some 1,
        eID = None, isChecked = False\<rparr>,
      \<lparr>head = Some 2, face = Some 0, pair = Some 4, prev = Some 0, nxt = Some 2,
        eID = None, isChecked = False\<rparr>,
      \<lparr>head = Some 0, face = Some 0, pair = Some 5, prev = Some 1, nxt = Some 0,
        eID = None, isChecked = False\<rparr>,
      \<lparr>head = Some 0, face = None, pair = Some 0, prev = Some 4, nxt = Some 5,
        eID = None, isChecked = False\<rparr>,
      \<lparr>head = Some 1, face = None, pair = Some 1, prev = Some 5, nxt = Some 3,
        eID = None, isChecked = False\<rparr>,
      \<lparr>head = Some 2, face = None, pair = Some 2, prev = Some 3, nxt = Some 4,
        eID = None, isChecked = False\<rparr>]"
  by (simp add: makeTriangle_def makeTriangle_step_def makeNextPrev_def linkEdges_def
      newHEdge_def Let_def)

lemma makeTriangle_vertices:
  "vertices makeTriangle =
     [\<lparr>pos = fromValues 0 0 0, color = gray, vh = Some 0, vID = None\<rparr>,
      \<lparr>pos = fromValues 1 0 0, color = gray, vh = Some 1, vID = None\<rparr>,
      \<lparr>pos = fromValues 0 1 0, color = gray, vh = Some 2, vID = None\<rparr>]"
  by (simp add: makeTriangle_def makeTriangle_step_def newHVertex_def Let_def)

lemma makeTriangle_faces: "faces makeTriangle = [\<lparr>fh = Some 0, fID = None\<rparr>]"
  by (simp add: makeTriangle_def makeTriangle_step_def newHFace_def Let_def)

lemmas deref_defs = getE_def getV_def getF_def deref_def

lemma rbind_Ok: "rbind m f = Ok y \<longleftrightarrow> (\<exists>x. m = Ok x \<and> f x = Ok y)"
  by (cases m) auto

lemma getE_Ok: "getE m r = Ok ed \<longleftrightarrow> (\<exists>i. r = Some i \<and> i < length (edges m) \<and> ed = edges m ! i)"
  by (cases r) (auto simp: getE_def deref_def)

lemma getV_Ok:
  "getV m r = Ok x \<longleftrightarrow> (\<exists>i. r = Some i \<and> i < length (vertices m) \<and> x = vertices m ! i)"
  by (cases r) (auto simp: getV_def deref_def)

lemmas makeTriangle_eval = makeTriangle_edges makeTriangle_vertices makeTriangle_faces

declare getArea_loop.simps [simp del]

lemmas vec_defs = fromValues_def vnegate_def vadd_def vscale_def vcross_def sqlen_def vlength_def
  vnormalize_def getVectorBetweenPoints_def nsub_def vsub_def

lemmas load_defs = loadFileFromLines_def addVertices_def addFace_def addFaceEdge_def
  addHalfEdge_def linkFaceEdge_def pairEdge_def linkBoundary_def keyOrder_def numberAll_def
  vertexAt_def setVh_def newHVertex_def newHEdge_def newHFace_def List.map_filter_def

lemmas normal_defs = getNormal_def getAttachedFaces_def repairH_def setVh_def faceNormal_def
  getArea_def getEdges_def edgeVector_def getArea_loop.simps

lemma fuel4: "4 + n = Suc (Suc (Suc (Suc n)))"
  by simp

lemma sqrt_quarter: "sqrt (1/4) = 1/2"
  by (simp add: real_sqrt_divide)

lemma load_triangle:
  "loadFileFromLines [(p0, c0), (p1, c1), (p2, c2)] [[0, 1, 2]] =
     Ok (triangleMesh p0 c0 p1 c1 p2 c2)"
  by (simp add: load_defs deref_defs Let_def upt_rec triangleMesh_def)

section \<open>The vertices of a face\<close>

lemma getVertices_loop_heads:
  "getVertices_loop n m start h (map (\<lambda>e. head (edges m ! e)) es) =
     map_result (map (\<lambda>e. head (edges m ! e))) (getEdges_loop n m start h es)"
proof (induction n arbitrary: h es)
  case 0
  show ?case by simp
next
  case (Suc n)
  show ?case
  proof (cases h)
    case None
    then show ?thesis by (simp add: deref_defs)
  next
    case (Some e)
    show ?thesis
    proof (cases "e < length (edges m)")
      case True
      with Some Suc [of "nxt (edges m ! e)" "es @ [e]"] show ?thesis
        by (simp add: deref_defs)
    next
      case False
      with Some show ?thesis by (simp add: deref_defs)
    qed
  qed
qed

text \<open>
  C1, as the claim states it, fails on the mesh of \<open>makeTriangle\<close>: the first vertex that
  \<open>getVertices\<close> returns is the head of the first edge of \<open>getEdges\<close>, which is the
  stored edge of the face, and not the head of the second.
\<close>

theorem faceVertices_rotation_counterexample:
  "\<exists>es vs. getEdges 4 makeTriangle 0 = Ok es \<and> getVertices 4 makeTriangle 0 = Ok vs \<and>
     fh (faces makeTriangle ! 0) = Some (es ! 0) \<and>
     hd vs = head (edges makeTriangle ! (es ! 0)) \<and>
     hd vs \<noteq> head (edges makeTriangle ! (es ! 1))"
  by (simp add: getEdges_def getVertices_def deref_defs makeTriangle_eval numeral_eq_Suc)

text \<open>
  C1, amended: for every face, whatever the fuel, \<open>getVertices\<close> returns the heads of the
  edges of \<open>getEdges\<close> in the same order with no rotation (and it throws or runs on
  exactly when \<open>getEdges\<close> does): the first vertex is the head of the stored edge.
\<close>

theorem faceVertices_heads_of_faceEdges:
  "getVertices n m f = map_result (map (\<lambda>e. head (edges m ! e))) (getEdges n m f)"
proof (cases "f < length (faces m)")
  case False
  then show ?thesis by (simp add: getVertices_def getEdges_def deref_defs)
next
  case inrange: True
  show ?thesis
  proof (cases "fh (faces m ! f)")
    case None
    with inrange show ?thesis by (simp add: getVertices_def getEdges_def deref_defs)
  next
    case (Some start)
    show ?thesis
    proof (cases "start < length (edges m)")
      case True
      with inrange Some
        getVertices_loop_heads [of n m start "nxt (edges m ! start)" "[start]"]
      show ?thesis by (simp add: getVertices_def getEdges_def deref_defs)
    next
      case False
      with inrange Some show ?thesis by (simp add: getVertices_def getEdges_def deref_defs)
    qed
  qed
qed

section \<open>The area of a face\<close>

lemma edgeVector_linked: "linked m e \<Longrightarrow> edgeVector m (Some e) = Ok (headMinusTail m e)"
  by (auto simp: linked_def edgeVector_def headMinusTail_def deref_defs
      getVectorBetweenPoints_def vsub_def vadd_def vnegate_def nsub_def
      split: option.splits prod.splits)

lemma getArea_loop_sum:
  assumes "\<forall>e\<in>set es. linked m e"
  shows "getArea_loop m es i res =
     Ok (foldl vadd res
       (map (\<lambda>i. vscale (vcross (headMinusTail m (es ! i)) (headMinusTail m (es ! (i + 1))))
                 (Fin (1/2)))
          [i..<length es - 2]))"
  using assms
proof (induction m es i res rule: getArea_loop.induct)
  case (1 m es i res)
  show ?case
  proof (cases "int i < int (length es) - 2")
    case True
    then have lt: "i < length es - 2" and i1: "i < length es" "i + 1 < length es" by auto
    have v1: "edgeVector m (Some (es ! i)) = Ok (headMinusTail m (es ! i))"
      using "1.prems" i1 by (intro edgeVector_linked) auto
    have v2: "edgeVector m (Some (es ! (i + 1))) = Ok (headMinusTail m (es ! (i + 1)))"
      using "1.prems" i1 by (intro edgeVector_linked) auto
    have step: "getArea_loop m es i res =
        getArea_loop m es (i + 1) (vadd res (vscale (vcross (headMinusTail m (es ! i))
            (headMinusTail m (es ! (i + 1)))) (Fin (1/2))))"
      using True v1 v2 by (subst getArea_loop.simps) simp
    show ?thesis
      using "1.IH" [OF True "1.prems"] lt
      by (simp add: step upt_conv_Cons)
  next
    case False
    then have "[i..<length es - 2] = []" by auto
    with False show ?thesis by (subst getArea_loop.simps) simp
  qed
qed

text \<open>
  C7: when \<open>getEdges\<close> returns the \<open>n\<close> boundary edges of the face and each has its two
  end points, \<open>getArea\<close> returns the length of the vector sum of the halved cross products
  of the \<open>n - 2\<close> consecutive pairs of edge vectors, head position minus tail position.
\<close>

theorem faceArea_vector_sum:
  assumes "getEdges n m f = Ok es" and "\<forall>e\<in>set es. linked m e"
  shows "getArea n m f = Ok (vlength (areaVectorSum (map (headMinusTail m) es)))"
proof -
  have e: "map (\<lambda>i. vscale (vcross (map (headMinusTail m) es ! i)
                (map (headMinusTail m) es ! (i + 1))) (Fin (1/2))) [0..<length es - 2] =
           map (\<lambda>i. vscale (vcross (headMinusTail m (es ! i))
                (headMinusTail m (es ! (i + 1)))) (Fin (1/2))) [0..<length es - 2]"
    by (rule map_cong) auto
  have "getArea_loop m es 0 (fromValues 0 0 0) = Ok (areaVectorSum (map (headMinusTail m) es))"
    unfolding areaVectorSum_def length_map e by (rule getArea_loop_sum [OF assms(2)])
  with assms(1) show ?thesis by (simp add: getArea_def)
qed

theorem faceArea_vector_sum_witness:
  "getEdges 4 makeTriangle 0 = Ok [0, 1, 2] \<and>
   linked makeTriangle 0 \<and> linked makeTriangle 1 \<and> linked makeTriangle 2 \<and>
   getArea 4 makeTriangle 0 = Ok (Fin (1/2))"
proof -
  have es: "getEdges 4 makeTriangle 0 = Ok [0, 1, 2]"
    by (simp add: getEdges_def deref_defs makeTriangle_eval numeral_eq_Suc)
  have l: "linked makeTriangle 0" "linked makeTriangle 1" "linked makeTriangle 2"
    by (simp_all add: linked_def makeTriangle_eval)
  then have "\<forall>e\<in>set [0, 1, 2]. linked makeTriangle e" by simp
  from faceArea_vector_sum [OF es this]
  have "getArea 4 makeTriangle 0 = Ok (Fin (1/2))"
    by (simp add: areaVectorSum_def headMinusTail_def makeTriangle_eval vec_defs sqrt_quarter)
  with es l show ?thesis by simp
qed

section \<open>The single triangle\<close>

text \<open>
  C8: the mesh of \<open>makeTriangle\<close> has the three positions, six half-edges of which the
  first three have the face and the last three have none, and one face; with fuel 4 or
  more, \<open>getNormal\<close> returns \<open>(0, 0, 1)\<close> at each of its three vertices. The same holds of
  the mesh that \<open>loadFileFromLines\<close> builds from the three positions and the face
  \<open>[0, 1, 2]\<close>.
\<close>

theorem single_triangle_mesh:
  "map pos (vertices makeTriangle) = [fromValues 0 0 0, fromValues 1 0 0, fromValues 0 1 0] \<and>
   map face (edges makeTriangle) = [Some 0, Some 0, Some 0, None, None, None] \<and>
   length (faces makeTriangle) = 1 \<and>
   map (\<lambda>v. map_result snd (getNormal (4 + n) makeTriangle v)) [0, 1, 2] =
     [Ok (fromValues 0 0 1), Ok (fromValues 0 0 1), Ok (fromValues 0 0 1)] \<and>
   (\<exists>m. loadFileFromLines
          [(fromValues 0 0 0, c0), (fromValues 1 0 0, c1), (fromValues 0 1 0, c2)]
          [[0, 1, 2]] = Ok m \<and>
        length (vertices m) = 3 \<and>
        map face (edges m) = [Some 0, Some 0, Some 0, None, None, None] \<and>
        length (faces m) = 1 \<and>
        map (\<lambda>v. map_result snd (getNormal (4 + n) m v)) [0, 1, 2] =
          [Ok (fromValues 0 0 1), Ok (fromValues 0 0 1), Ok (fromValues 0 0 1)])"
proof -
  have a: "map pos (vertices makeTriangle) =
      [fromValues 0 0 0, fromValues 1 0 0, fromValues 0 1 0]"
    "map face (edges makeTriangle) = [Some 0, Some 0, Some 0, None, None, None]"
    "length (faces makeTriangle) = 1"
    by (simp_all add: makeTriangle_eval)
  have b: "map (\<lambda>v. map_result snd (getNormal (4 + n) makeTriangle v)) [0, 1, 2] =
     [Ok (fromValues 0 0 1), Ok (fromValues 0 0 1), Ok (fromValues 0 0 1)]"
    by (simp add: fuel4 normal_defs deref_defs makeTriangle_eval vec_defs sqrt_quarter)
  have c: "map (\<lambda>v. map_result snd (getNormal (4 + n)
        (triangleMesh (fromValues 0 0 0) c0 (fromValues 1 0 0) c1 (fromValues 0 1 0) c2) v))
        [0, 1, 2] =
     [Ok (fromValues 0 0 1), Ok (fromValues 0 0 1), Ok (fromValues 0 0 1)]"
    by (simp add: fuel4 normal_defs deref_defs triangleMesh_def vec_defs sqrt_quarter)
  have d: "length (vertices (triangleMesh (fromValues 0 0 0) c0 (fromValues 1 0 0) c1
        (fromValues 0 1 0) c2)) = 3"
    "map face (edges (triangleMesh (fromValues 0 0 0) c0 (fromValues 1 0 0) c1
        (fromValues 0 1 0) c2)) = [Some 0, Some 0, Some 0, None, None, None]"
    "length (faces (triangleMesh (fromValues 0 0 0) c0 (fromValues 1 0 0) c1
        (fromValues 0 1 0) c2)) = 1"
    by (simp_all add: triangleMesh_def)
  show ?thesis
    by (intro conjI exI [of _ "triangleMesh (fromValues 0 0 0) c0 (fromValues 1 0 0) c1
        (fromValues 0 1 0) c2"] a b c d load_triangle)
qed

section \<open>The normal of a vertex without area\<close>

lemma nonneg_nsqrt: "nonneg (nsqrt x)"
  by (cases x) simp_all

lemma nonneg_getArea: "getArea n m f = Ok a \<Longrightarrow> nonneg a"
  by (cases "getEdges n m f"; cases "getArea_loop m (case getEdges n m f of Ok es \<Rightarrow> es) 0 (fromValues 0 0 0)")
     (auto simp: getArea_def vlength_def nonneg_nsqrt)

lemma nadd_zero: "nonneg s \<Longrightarrow> nonneg a \<Longrightarrow> nadd s a = Fin 0 \<Longrightarrow> s = Fin 0 \<and> a = Fin 0"
  by (cases s; cases a) auto

lemma nonneg_nadd: "nonneg s \<Longrightarrow> nonneg a \<Longrightarrow> nonneg (nadd s a)"
  by (cases s; cases a) auto

lemma zeroish_nmul0: "zeroish (nmul x (Fin 0))"
  by (cases x) (simp_all add: zeroish_def inf_times_def)

lemma zeroish_nadd: "zeroish x \<Longrightarrow> zeroish y \<Longrightarrow> zeroish (nadd x y)"
  by (auto simp: zeroish_def)

lemma zeroish_inf: "zeroish x \<Longrightarrow> nmul x PInf = NaN"
  by (auto simp: zeroish_def inf_times_def)

lemma vzeroish_step: "vzeroish a \<Longrightarrow> vzeroish (vadd a (vscale b (Fin 0)))"
  by (auto simp: vzeroish_def vadd_def vscale_def zeroish_nadd zeroish_nmul0 split: prod.splits)

lemma getNormal_loop_Cons:
  assumes "getNormal_loop n m (f # fs) normal areaSum = Ok r"
  obtains fn area where "faceNormal m f = Ok fn" and "getArea n m f = Ok area"
    and "getNormal_loop n m fs (vadd normal (vscale fn area)) (nadd areaSum area) = Ok r"
  using assms by (cases "faceNormal m f"; cases "getArea n m f") auto

lemma getNormal_loop_zero_start:
  "getNormal_loop n m fs normal areaSum = Ok (normal', Fin 0) \<Longrightarrow> nonneg areaSum \<Longrightarrow>
   areaSum = Fin 0"
proof (induction fs arbitrary: normal areaSum)
  case Nil
  then show ?case by simp
next
  case (Cons f fs)
  from Cons.prems(1) obtain fn area where ar: "getArea n m f = Ok area" and
    rest: "getNormal_loop n m fs (vadd normal (vscale fn area)) (nadd areaSum area) =
      Ok (normal', Fin 0)"
    by (rule getNormal_loop_Cons)
  have na: "nonneg area" using ar by (rule nonneg_getArea)
  have "nadd areaSum area = Fin 0"
    using rest nonneg_nadd [OF Cons.prems(2) na] by (rule Cons.IH)
  with Cons.prems(2) na show ?case by (simp add: nadd_zero)
qed

lemma getNormal_loop_zero:
  "getNormal_loop n m fs normal areaSum = Ok (normal', Fin 0) \<Longrightarrow> nonneg areaSum \<Longrightarrow>
   vzeroish normal \<Longrightarrow> vzeroish normal'"
proof (induction fs arbitrary: normal areaSum)
  case Nil
  then show ?case by simp
next
  case (Cons f fs)
  from Cons.prems(1) obtain fn area where ar: "getArea n m f = Ok area" and
    rest: "getNormal_loop n m fs (vadd normal (vscale fn area)) (nadd areaSum area) =
      Ok (normal', Fin 0)"
    by (rule getNormal_loop_Cons)
  have na: "nonneg area" using ar by (rule nonneg_getArea)
  have nn: "nonneg (nadd areaSum area)" using Cons.prems(2) na by (rule nonneg_nadd)
  have "nadd areaSum area = Fin 0" using rest nn by (rule getNormal_loop_zero_start)
  with Cons.prems(2) na have "area = Fin 0" by (simp add: nadd_zero)
  with Cons.prems(3) have "vzeroish (vadd normal (vscale fn area))" by (simp add: vzeroish_step)
  with rest nn show ?case by (rule Cons.IH)
qed

text \<open>
  C4, amended: when the areas of the attached faces add up to zero, \<open>getNormal\<close> throws
  nothing: it returns, and each component of the vector it returns is \<open>NaN\<close>.
\<close>

theorem vertexNormal_zero_area_is_NaN:
  assumes "getAttachedFaces n m v = Ok (m', fs)"
    and "getNormal_loop n m' fs (fromValues 0 0 0) (Fin 0) = Ok (normal, Fin 0)"
  shows "getNormal n m v = Ok (m', (NaN, NaN, NaN))"
proof -
  have "vzeroish (fromValues 0 0 0)" by (simp add: vzeroish_def zeroish_def fromValues_def)
  with getNormal_loop_zero [OF assms(2)] have "vzeroish normal" by simp
  then have "vscale normal PInf = (NaN, NaN, NaN)"
    by (auto simp: vzeroish_def vscale_def zeroish_inf split: prod.splits)
  with assms show ?thesis by (simp add: getNormal_def)
qed

lemma four_Suc: "4 = Suc (Suc (Suc (Suc 0)))"
  by simp

lemma pointMesh_normal:
  "getAttachedFaces 4 pointMesh 0 = Ok (pointMesh, [0])"
  "getArea 4 pointMesh 0 = Ok (Fin 0)"
  "getNormal_loop 4 pointMesh [0] (fromValues 0 0 0) (Fin 0) = Ok (fromValues 0 0 0, Fin 0)"
  "getNormal 4 pointMesh 0 = Ok (pointMesh, (NaN, NaN, NaN))"
  by (simp_all add: pointMesh_def four_Suc normal_defs deref_defs triangleMesh_def vec_defs
      inf_times_def Let_def)

text \<open>
  C4, as the claim states it, fails: at a vertex of a triangle of area zero the call
  returns a vector of \<open>NaN\<close>s and raises no error.
\<close>

theorem vertexNormal_undefined_counterexample:
  "loadFileFromLines [(fromValues 0 0 0, gray), (fromValues 0 0 0, gray), (fromValues 0 0 0, gray)]
      [[0, 1, 2]] = Ok pointMesh \<and>
   getAttachedFaces 4 pointMesh 0 = Ok (pointMesh, [0]) \<and>
   getArea 4 pointMesh 0 = Ok (Fin 0) \<and>
   getNormal 4 pointMesh 0 = Ok (pointMesh, (NaN, NaN, NaN)) \<and>
   (\<forall>e. getNormal 4 pointMesh 0 \<noteq> Err e)"
proof -
  have l: "loadFileFromLines
      [(fromValues 0 0 0, gray), (fromValues 0 0 0, gray), (fromValues 0 0 0, gray)]
      [[0, 1, 2]] = Ok pointMesh"
    unfolding pointMesh_def by (rule load_triangle)
  have e: "\<forall>e. getNormal 4 pointMesh 0 \<noteq> Err e"
    by (simp add: pointMesh_normal(4))
  show ?thesis
    by (intro conjI pointMesh_normal l e)
qed

theorem vertexNormal_zero_area_is_NaN_witness:
  "getAttachedFaces 4 pointMesh 0 = Ok (pointMesh, [0]) \<and>
   getNormal_loop 4 pointMesh [0] (fromValues 0 0 0) (Fin 0) = Ok (fromValues 0 0 0, Fin 0) \<and>
   getNormal 4 pointMesh 0 = Ok (pointMesh, (NaN, NaN, NaN))"
  by (intro conjI pointMesh_normal(1) pointMesh_normal(3)
      vertexNormal_zero_area_is_NaN [OF pointMesh_normal(1) pointMesh_normal(3)])


section \<open>A duplicated directed edge\<close>

lemma load_duplicate:
  "map_result edges (loadFileFromLines [(p0, c0), (p1, c1), (p2, c2), (p3, c3)]
      [[0, 1, 2], [0, 1, 3]]) = Ok dupEdges"
  by (simp add: load_defs deref_defs Let_def upt_rec dupEdges_def)


text \<open>
  C3, as the claim states it, fails: the two faces \<open>[0, 1, 2]\<close> and \<open>[0, 1, 3]\<close> both list
  the directed edge from 0 to 1, and \<open>loadFileFromLines\<close> returns a mesh. In it the first
  half-edge from 0 to 1 has no pair, and the boundary half-edge that pairs with the edge
  from 2 to 0 has neither \<open>next\<close> nor \<open>prev\<close>.
\<close>

theorem duplicate_edge_counterexample:
  "\<exists>m. loadFileFromLines fourPoints [[0, 1, 2], [0, 1, 3]] = Ok m \<and>
     pair (edges m ! 0) = None \<and> nxt (edges m ! 8) = None \<and> prev (edges m ! 8) = None"
proof -
  from load_duplicate [of "fromValues 0 0 0" gray "fromValues 1 0 0" gray "fromValues 0 1 0" gray
      "fromValues 0 0 1" gray]
  obtain m where "loadFileFromLines fourPoints [[0, 1, 2], [0, 1, 3]] = Ok m"
    and "edges m = dupEdges"
    unfolding fourPoints_def
    by (cases "loadFileFromLines [(fromValues 0 0 0, gray), (fromValues 1 0 0, gray),
        (fromValues 0 1 0, gray), (fromValues 0 0 1, gray)] [[0, 1, 2], [0, 1, 3]]") auto
  then show ?thesis by (auto simp: dupEdges_def)
qed

section \<open>The walks around a vertex\<close>

lemma load_bowtie: "loadFileFromLines fivePoints [[0, 1, 2], [0, 3, 4]] = Ok bowtie"
  by (simp add: fivePoints_def load_defs deref_defs Let_def upt_rec bowtie_def bowtieEdges_def)

lemma bowtie_fields:
  "edges bowtie = bowtieEdges"
  "map vID (vertices bowtie) = [Some 0, Some 1, Some 2, Some 3, Some 4]"
  "map vh (vertices bowtie) = [Some 3, Some 1, Some 2, Some 4, Some 5]"
  "length (vertices bowtie) = 5"
  by (simp_all add: bowtie_def)

lemma bowtie_vertex:
  "v < 5 \<Longrightarrow> vID (vertices bowtie ! v) = Some v"
  "vh (vertices bowtie ! 2) = Some 2"
  by (auto simp: bowtie_def less_Suc_eq numeral_eq_Suc)

lemmas bowtie_eval = deref_defs bowtie_fields(1,4) bowtie_vertex bowtieEdges_def

lemma bowtie_cycle:
  "seek n bowtie (Some 2) (Some 9) = OutOfFuel \<and>
   seek n bowtie (Some 2) (Some 10) = OutOfFuel \<and>
   seek n bowtie (Some 2) (Some 11) = OutOfFuel"
proof (induction n)
  case 0
  show ?case by simp
next
  case (Suc n)
  then show ?case by (simp add: bowtie_eval)
qed

lemma bowtie_seek_7: "seek n bowtie (Some 2) (Some 7) = OutOfFuel"
proof (cases n)
  case 0
  then show ?thesis by simp
next
  case (Suc k)
  show ?thesis
  proof (cases k)
    case 0
    with Suc show ?thesis by (simp add: bowtie_eval)
  next
    case (Suc j)
    with \<open>n = Suc k\<close> bowtie_cycle [of j] show ?thesis
      by (simp add: bowtie_eval)
  qed
qed

lemma bowtie_loop_7: "neighbors_loop n bowtie (Some 2) (Some 7) nbs = OutOfFuel"
  by (cases n) (simp_all add: bowtie_seek_7 bowtie_eval)

lemma bowtie_seek_2:
  "seek n bowtie (Some 2) (Some 2) = OutOfFuel \<or> seek n bowtie (Some 2) (Some 2) = Ok (Some 1)"
proof -
  consider "n = 0" | "n = 1" | "n = 2" | k where "n = Suc (Suc (Suc k))"
    by (metis One_nat_def Suc_1 not0_implies_Suc)
  then show ?thesis
    by cases (simp_all add: bowtie_eval numeral_2_eq_2)
qed

lemma bowtie_loop_2: "neighbors_loop n bowtie (Some 2) (Some 2) [] = OutOfFuel"
proof (cases n)
  case 0
  then show ?thesis by simp
next
  case (Suc k)
  from bowtie_seek_2 [of k] show ?thesis
  proof
    assume "seek k bowtie (Some 2) (Some 2) = OutOfFuel"
    with Suc show ?thesis by (simp add: bowtie_eval)
  next
    assume "seek k bowtie (Some 2) (Some 2) = Ok (Some 1)"
    with Suc bowtie_loop_7 [of k "[Some 0]"] show ?thesis
      by (simp add: bowtie_eval)
  qed
qed

text \<open>
  C5, as the claim states it, fails on a mesh that is not manifold: for the two triangles
  that share only the vertex 0, \<open>loadFileFromLines\<close> returns a mesh, and at its vertex 2
  \<open>getVertexNeighbors\<close> is still running whatever the fuel: the walk enters a cycle of
  boundary edges that never comes back to the vertex, and nothing caps it.
\<close>

theorem spoke_walk_counterexample:
  "\<exists>m. loadFileFromLines fivePoints [[0, 1, 2], [0, 3, 4]] = Ok m \<and>
     (\<forall>n. getVertexNeighbors n m 2 = OutOfFuel)"
proof -
  have "getVertexNeighbors n bowtie 2 = OutOfFuel" for n
    using bowtie_loop_2 [of n]
    by (simp add: getVertexNeighbors_def repairH_def bowtie_eval)
  with load_bowtie show ?thesis by blast
qed

section \<open>Boundary cycles\<close>

text \<open>
  C9: on the mesh of \<open>makeTriangle\<close>, one triangular face with three boundary edges,
  \<open>getBoundaryCycles\<close> returns three cycles of one edge each, whatever the number of rounds
  its inner loop is given: the vertices of that mesh have no \<open>ID\<close>, so the test
  \<open>iterated.head.ID != edge.head.ID\<close> compares \<open>undefined\<close> with \<open>undefined\<close> and is false at
  once. On the same triangle built by \<open>loadFileFromLines\<close>, where the vertices are
  numbered, it returns the one cycle of the three boundary edges.
\<close>

theorem boundaryCycles_single_triangle:
  "map_result snd (getBoundaryCycles (Suc n) makeTriangle) = Ok [[3], [4], [5]] \<and>
   map_result snd (getBoundaryCycles (4 + n) (triangleMesh p0 c0 p1 c1 p2 c2)) = Ok [[3, 5, 4]]"
proof
  show "map_result snd (getBoundaryCycles (Suc n) makeTriangle) = Ok [[3], [4], [5]]"
    by (simp add: getBoundaryCycles_def cycle_step_def setChecked_def deref_defs makeTriangle_eval
        upt_rec)
  show "map_result snd (getBoundaryCycles (4 + n) (triangleMesh p0 c0 p1 c1 p2 c2)) =
      Ok [[3, 5, 4]]"
    by (simp add: getBoundaryCycles_def cycle_step_def setChecked_def deref_defs triangleMesh_def
        upt_rec fuel4)
qed


section \<open>Laplacian smoothing\<close>

lemma agree_getE: "agree A m ma \<Longrightarrow> getE ma r = getE m r"
  by (simp add: agree_def getE_def)

lemma agree_getV:
  "agree A m ma \<Longrightarrow>
     (getV ma r = Err TypeError \<and> getV m r = Err TypeError) \<or>
     (\<exists>i. r = Some i \<and> i < length (vertices m) \<and> getV ma r = Ok (vertices ma ! i) \<and>
           getV m r = Ok (vertices m ! i))"
  by (cases r) (auto simp: agree_def getV_def deref_def)

lemma seek_agree: "agree A m ma \<Longrightarrow> seek n ma tid e = seek n m tid e"
proof (induction n arbitrary: e)
  case 0
  show ?case by simp
next
  case (Suc n)
  show ?case
  proof (cases "getE m e")
    case (Ok ed)
    with agree_getV [OF Suc.prems, of "head ed"] Suc.IH [OF Suc.prems] Suc.prems
    show ?thesis by (auto simp: agree_getE agree_def)
  qed (simp_all add: agree_getE [OF Suc.prems])
qed


lemma rbind_cong:
  "m = m' \<Longrightarrow> (\<And>x. m' = Ok x \<Longrightarrow> f x = f' x) \<Longrightarrow> rbind m f = rbind m' f'"
  by (cases m') simp_all

lemma neighbors_loop_agree:
  "agree A m ma \<Longrightarrow> neighbors_loop n ma tid e nbs = neighbors_loop n m tid e nbs"
proof (induction n arbitrary: e nbs)
  case 0
  show ?case by simp
next
  case (Suc n)
  note ag = Suc.prems
  show ?case
    unfolding neighbors_loop.simps agree_getE [OF ag] seek_agree [OF ag]
  proof (rule rbind_cong [OF refl], rule rbind_cong [OF refl], rule rbind_cong [OF refl],
      rule rbind_cong [OF refl])
    fix ed edge1 ed1 ed2
    show "rbind (getV ma (head ed2)) (\<lambda>hv. rbind (getV ma (hd (nbs @ [head ed])))
            (\<lambda>first. if vID hv \<noteq> vID first
               then neighbors_loop n ma tid (pair ed1) (nbs @ [head ed])
               else Ok (nbs @ [head ed]))) =
          rbind (getV m (head ed2)) (\<lambda>hv. rbind (getV m (hd (nbs @ [head ed])))
            (\<lambda>first. if vID hv \<noteq> vID first
               then neighbors_loop n m tid (pair ed1) (nbs @ [head ed])
               else Ok (nbs @ [head ed])))"
      using agree_getV [OF ag, of "head ed2"] agree_getV [OF ag, of "hd (nbs @ [head ed])"]
        Suc.IH [OF ag] ag
      by (auto simp: agree_def)
  qed
qed

lemma agree_setVh:
  "agree A m ma \<Longrightarrow> v < length (vertices m) \<Longrightarrow> agree (insert v A) m (setVh ma v r)"
  by (auto simp: agree_def setVh_def nth_list_update)


lemma agree_refl: "agree A m m"
  by (simp add: agree_def)















section \<open>Termination of the walks on a manifold mesh\<close>

lemma funpow_closed: "f ` A \<subseteq> A \<Longrightarrow> x \<in> A \<Longrightarrow> (f ^^ i) x \<in> A"
  by (induction i) auto

lemma funpow_inj_on: "inj_on f A \<Longrightarrow> f ` A \<subseteq> A \<Longrightarrow> inj_on (f ^^ i) A"
proof (induction i)
  case 0
  show ?case by simp
next
  case (Suc i)
  then have "inj_on (f ^^ i) A" by simp
  moreover have "(f ^^ i) ` A \<subseteq> A" using Suc.prems(2) by (auto intro: funpow_closed)
  ultimately have "inj_on (f \<circ> (f ^^ i)) A"
    using Suc.prems(1) by (intro comp_inj_on) (auto intro: inj_on_subset)
  then show ?case by (simp add: comp_def)
qed

lemma orbit_returns:
  assumes "finite A" and "f ` A \<subseteq> A" and "inj_on f A" and "x \<in> A"
  shows "\<exists>q. 0 < q \<and> q \<le> card A \<and> (f ^^ q) x = x"
proof -
  have "(\<lambda>i. (f ^^ i) x) ` {0..card A} \<subseteq> A"
    using assms(2,4) by (auto intro: funpow_closed)
  then have "card ((\<lambda>i. (f ^^ i) x) ` {0..card A}) \<le> card A"
    using assms(1) by (rule card_mono [rotated])
  then have "card ((\<lambda>i. (f ^^ i) x) ` {0..card A}) < card {0..card A}" by simp
  then have "\<not> inj_on (\<lambda>i. (f ^^ i) x) {0..card A}" by (rule pigeonhole)
  then obtain i j where ij: "i \<le> card A" "j \<le> card A" "i \<noteq> j" "(f ^^ i) x = (f ^^ j) x"
    by (auto simp: inj_on_def)
  have ret: "(f ^^ (b - a)) x = x" if "a < b" "(f ^^ a) x = (f ^^ b) x" for a b
  proof -
    from that(1) have "(f ^^ b) x = (f ^^ a) ((f ^^ (b - a)) x)"
      by (simp flip: funpow_add [THEN fun_cong, simplified comp_def])
    with that(2) have "(f ^^ a) x = (f ^^ a) ((f ^^ (b - a)) x)" by simp
    moreover have "(f ^^ (b - a)) x \<in> A" using assms(2,4) by (rule funpow_closed)
    ultimately show ?thesis
      using funpow_inj_on [OF assms(3,2), of a] assms(4) by (auto dest: inj_onD)
  qed
  show ?thesis
  proof (cases "i < j")
    case True
    with ret [OF True ij(4)] ij(2) show ?thesis by (intro exI [of _ "j - i"]) auto
  next
    case False
    with ij(3) have "j < i" by simp
    with ret [OF this ij(4) [symmetric]] ij(1) show ?thesis by (intro exI [of _ "i - j"]) auto
  qed
qed


lemma manifold_edge:
  assumes "manifoldMesh m" and "e < length (edges m)"
  shows "nxt (edges m ! e) = Some (nx m e)" and "nx m e < length (edges m)"
    and "prev (edges m ! e) = Some (pv m e)" and "pv m e < length (edges m)"
    and "pair (edges m ! e) = Some (pr m e)" and "pr m e < length (edges m)"
    and "pv m (nx m e) = e" and "nx m (pv m e) = e" and "pr m (pr m e) = e"
    and "head (edges m ! pr m e) = head (edges m ! pv m e)"
    and "\<exists>h. head (edges m ! e) = Some h \<and> h < length (vertices m)"
proof -
  from assms have "edgeOK m e" by (simp add: manifoldMesh_def)
  then show "nxt (edges m ! e) = Some (nx m e)" "nx m e < length (edges m)"
    "prev (edges m ! e) = Some (pv m e)" "pv m e < length (edges m)"
    "pair (edges m ! e) = Some (pr m e)" "pr m e < length (edges m)"
    "pv m (nx m e) = e" "nx m (pv m e) = e" "pr m (pr m e) = e"
    "head (edges m ! pr m e) = head (edges m ! pv m e)"
    "\<exists>h. head (edges m ! e) = Some h \<and> h < length (vertices m)"
    by (auto simp: edgeOK_def nx_def pv_def pr_def split: option.splits)
qed

lemma manifold_vID: "manifoldMesh m \<Longrightarrow> v < length (vertices m) \<Longrightarrow> vID (vertices m ! v) = Some v"
  by (simp add: manifoldMesh_def vertexOK_def)

lemma nx_closed: "manifoldMesh m \<Longrightarrow> nx m ` {..<length (edges m)} \<subseteq> {..<length (edges m)}"
  by (auto simp: manifold_edge(2))

lemma nx_inj: "manifoldMesh m \<Longrightarrow> inj_on (nx m) {..<length (edges m)}"
  by (rule inj_on_inverseI [where g = "pv m"]) (simp add: manifold_edge(7))

lemma nx_pow_closed:
  "manifoldMesh m \<Longrightarrow> e < length (edges m) \<Longrightarrow> (nx m ^^ i) e < length (edges m)"
  using funpow_closed [OF nx_closed, of m e i] by simp

lemma pv_nx_pow:
  "manifoldMesh m \<Longrightarrow> e < length (edges m) \<Longrightarrow> pv m ((nx m ^^ Suc i) e) = (nx m ^^ i) e"
  by (simp add: manifold_edge(7) nx_pow_closed)

lemma seek_run:
  assumes "manifoldMesh m" and "v < length (vertices m)"
  shows "e < length (edges m) \<Longrightarrow> head (edges m ! ((nx m ^^ d) e)) = Some v \<Longrightarrow>
    \<forall>j<d. head (edges m ! ((nx m ^^ j) e)) \<noteq> Some v \<Longrightarrow> d < n \<Longrightarrow>
    seek n m (Some v) (Some e) = Ok (Some ((nx m ^^ d) e))"
proof (induction d arbitrary: e n)
  case 0
  then obtain k where n: "n = Suc k" by (cases n) auto
  from 0 assms show ?case
    by (simp add: n deref_defs manifold_vID)
next
  case (Suc d)
  then obtain k where n: "n = Suc k" and dk: "d < k" by (cases n) auto
  from manifold_edge(11) [OF assms(1) Suc.prems(1)] obtain h where
    h: "head (edges m ! e) = Some h" "h < length (vertices m)" by blast
  from Suc.prems(3) [rule_format, of 0] h have hv: "h \<noteq> v" by simp
  have e': "nx m e < length (edges m)" using assms(1) Suc.prems(1) by (rule manifold_edge(2))
  have 1: "head (edges m ! ((nx m ^^ d) (nx m e))) = Some v"
    using Suc.prems(2) by (simp add: funpow_swap1)
  have 2: "\<forall>j<d. head (edges m ! ((nx m ^^ j) (nx m e))) \<noteq> Some v"
    using Suc.prems(3) by (auto simp: funpow_swap1 dest: spec [of _ "Suc j" for j])
  from Suc.IH [OF e' 1 2 dk] h hv assms Suc.prems(1) show ?case
    by (simp add: n deref_defs manifold_vID manifold_edge(1) funpow_swap1)
qed


lemma outgoing_D:
  "e \<in> outgoing m v \<Longrightarrow> e < length (edges m) \<and> head (edges m ! pv m e) = Some v"
  by (simp add: outgoing_def)

lemma seek_exists:
  assumes "manifoldMesh m" and "e \<in> outgoing m v"
  shows "\<exists>d < length (edges m). head (edges m ! ((nx m ^^ d) e)) = Some v"
proof -
  from assms(2) have e: "e < length (edges m)" and t: "head (edges m ! pv m e) = Some v"
    by (simp_all add: outgoing_def)
  from orbit_returns [OF _ nx_closed [OF assms(1)] nx_inj [OF assms(1)], of e] e
  obtain q where q: "0 < q" "q \<le> length (edges m)" "(nx m ^^ q) e = e" by auto
  then obtain d where d: "q = Suc d" by (cases q) auto
  from pv_nx_pow [OF assms(1) e, of d] q(3) d have "(nx m ^^ d) e = pv m e" by simp
  with t q(2) d show ?thesis by (intro exI [of _ d]) simp
qed

lemma seekTarget_props:
  assumes "manifoldMesh m" and "e \<in> outgoing m v"
  defines "D \<equiv> (LEAST d. head (edges m ! ((nx m ^^ d) e)) = Some v)"
  shows "D < length (edges m)" and "head (edges m ! seekTarget m v e) = Some v"
    and "\<forall>j<D. head (edges m ! ((nx m ^^ j) e)) \<noteq> Some v"
    and "seekTarget m v e = (nx m ^^ D) e" and "seekTarget m v e < length (edges m)"
proof -
  from seek_exists [OF assms(1,2)] obtain d where
    d: "d < length (edges m)" "head (edges m ! ((nx m ^^ d) e)) = Some v" by blast
  from d(2) have "D \<le> d" unfolding D_def by (rule Least_le)
  with d(1) show "D < length (edges m)" by simp
  from d(2) have "head (edges m ! ((nx m ^^ D) e)) = Some v" unfolding D_def by (rule LeastI)
  then show "head (edges m ! seekTarget m v e) = Some v" by (simp add: seekTarget_def D_def)
  show "\<forall>j<D. head (edges m ! ((nx m ^^ j) e)) \<noteq> Some v"
    unfolding D_def by (auto dest: not_less_Least)
  show "seekTarget m v e = (nx m ^^ D) e" by (simp add: seekTarget_def D_def)
  then show "seekTarget m v e < length (edges m)"
    using assms(1,2) by (simp add: nx_pow_closed outgoing_def)
qed

lemma seek_target:
  assumes "manifoldMesh m" and "v < length (vertices m)" and "e \<in> outgoing m v"
    and "length (edges m) \<le> n"
  shows "seek n m (Some v) (Some e) = Ok (Some (seekTarget m v e))"
proof -
  note p = seekTarget_props [OF assms(1,3)]
  from assms(3) have e: "e < length (edges m)" by (simp add: outgoing_def)
  from p(2) have "head (edges m ! ((nx m ^^ (LEAST d. head (edges m ! ((nx m ^^ d) e)) = Some v)) e)) = Some v"
    by (simp add: p(4))
  from seek_run [OF assms(1,2) e this p(3)] p(1) assms(4) show ?thesis
    by (simp add: p(4))
qed

lemma spoke_outgoing:
  assumes "manifoldMesh m" and "e \<in> outgoing m v"
  shows "spoke m v e \<in> outgoing m v"
proof -
  note p = seekTarget_props [OF assms]
  let ?c = "seekTarget m v e"
  have "pr m ?c < length (edges m)" using assms(1) p(5) by (rule manifold_edge(6))
  moreover have "head (edges m ! pv m (pr m ?c)) = Some v"
    using manifold_edge(10) [OF assms(1) \<open>pr m ?c < length (edges m)\<close>]
      manifold_edge(9) [OF assms(1) p(5)] p(2) by simp
  ultimately show ?thesis by (simp add: spoke_def outgoing_def)
qed

lemma seekTarget_inj_aux:
  assumes m: "manifoldMesh m" and e1: "e1 \<in> outgoing m v" and e2: "e2 \<in> outgoing m v"
    and eq: "(nx m ^^ D1) e1 = (nx m ^^ D2) e2" and le: "D1 \<le> D2"
    and min: "\<forall>j<D2. head (edges m ! ((nx m ^^ j) e2)) \<noteq> Some v"
  shows "e1 = e2"
proof -
  from e1 e2 have l1: "e1 < length (edges m)" and l2: "e2 < length (edges m)"
    and t1: "head (edges m ! pv m e1) = Some v" by (simp_all add: outgoing_def)
  from le have "(nx m ^^ D2) e2 = (nx m ^^ D1) ((nx m ^^ (D2 - D1)) e2)"
    by (simp flip: funpow_add [THEN fun_cong, simplified comp_def])
  with eq have "(nx m ^^ D1) e1 = (nx m ^^ D1) ((nx m ^^ (D2 - D1)) e2)" by simp
  moreover have "(nx m ^^ (D2 - D1)) e2 < length (edges m)" using m l2 by (rule nx_pow_closed)
  ultimately have e1eq: "e1 = (nx m ^^ (D2 - D1)) e2"
    using funpow_inj_on [OF nx_inj [OF m] nx_closed [OF m], of D1] l1
    by (auto dest: inj_onD)
  show ?thesis
  proof (cases "D2 - D1")
    case 0
    with e1eq show ?thesis by simp
  next
    case (Suc k)
    with e1eq pv_nx_pow [OF m l2, of k] have "pv m e1 = (nx m ^^ k) e2" by simp
    with t1 have "head (edges m ! ((nx m ^^ k) e2)) = Some v" by simp
    moreover from Suc have "k < D2" by simp
    ultimately show ?thesis using min by blast
  qed
qed

lemma spoke_inj:
  assumes "manifoldMesh m"
  shows "inj_on (spoke m v) (outgoing m v)"
proof (rule inj_onI)
  fix e1 e2
  assume e1: "e1 \<in> outgoing m v" and e2: "e2 \<in> outgoing m v"
    and eq: "spoke m v e1 = spoke m v e2"
  note p1 = seekTarget_props [OF assms e1] and p2 = seekTarget_props [OF assms e2]
  from eq have "pr m (pr m (seekTarget m v e1)) = pr m (pr m (seekTarget m v e2))"
    by (simp add: spoke_def)
  then have "seekTarget m v e1 = seekTarget m v e2"
    by (simp only: manifold_edge(9) [OF assms p1(5)] manifold_edge(9) [OF assms p2(5)])
  then have eq': "(nx m ^^ (LEAST d. head (edges m ! ((nx m ^^ d) e1)) = Some v)) e1 =
      (nx m ^^ (LEAST d. head (edges m ! ((nx m ^^ d) e2)) = Some v)) e2"
    by (simp add: p1(4) p2(4))
  show "e1 = e2"
  proof (cases "(LEAST d. head (edges m ! ((nx m ^^ d) e1)) = Some v) \<le>
      (LEAST d. head (edges m ! ((nx m ^^ d) e2)) = Some v)")
    case True
    from seekTarget_inj_aux [OF assms e1 e2 eq' True p2(3)] show ?thesis .
  next
    case False
    then have "(LEAST d. head (edges m ! ((nx m ^^ d) e2)) = Some v) \<le>
      (LEAST d. head (edges m ! ((nx m ^^ d) e1)) = Some v)" by simp
    from seekTarget_inj_aux [OF assms e2 e1 eq' [symmetric] this p1(3)] show ?thesis by simp
  qed
qed

lemma spoke_returns:
  assumes "manifoldMesh m" and "e \<in> outgoing m v"
  shows "\<exists>q. 0 < q \<and> q \<le> length (edges m) \<and> (spoke m v ^^ q) e = e"
proof -
  have fin: "finite (outgoing m v)" by (simp add: outgoing_def)
  have "outgoing m v \<subseteq> {..<length (edges m)}" by (auto simp: outgoing_def)
  then have "card (outgoing m v) \<le> length (edges m)"
    using card_mono [of "{..<length (edges m)}" "outgoing m v"] by simp
  moreover have "spoke m v ` outgoing m v \<subseteq> outgoing m v"
    using assms(1) by (auto intro: spoke_outgoing)
  from orbit_returns [OF fin this spoke_inj [OF assms(1)] assms(2)]
  obtain q where "0 < q" "q \<le> card (outgoing m v)" "(spoke m v ^^ q) e = e" by blast
  ultimately show ?thesis by (intro exI [of _ q]) simp
qed


lemma spoke_pow_outgoing:
  "manifoldMesh m \<Longrightarrow> e \<in> outgoing m v \<Longrightarrow> (spoke m v ^^ j) e \<in> outgoing m v"
  by (rule funpow_closed) (auto intro: spoke_outgoing)

lemma neighbors_loop_terminates:
  assumes m: "manifoldMesh m" and v: "v < length (vertices m)" and e0: "e0 \<in> outgoing m v"
    and q: "(spoke m v ^^ q) e0 = e0"
  shows "j < q \<Longrightarrow>
    hd (nbs @ [head (edges m ! ((spoke m v ^^ j) e0))]) = head (edges m ! e0) \<Longrightarrow>
    length (edges m) + (q - j) \<le> n \<Longrightarrow>
    \<exists>res. neighbors_loop n m (Some v) (Some ((spoke m v ^^ j) e0)) nbs = Ok res"
proof (induction "q - j" arbitrary: j nbs n)
  case 0
  then show ?case by simp
next
  case (Suc d)
  let ?e = "(spoke m v ^^ j) e0"
  let ?c = "seekTarget m v ?e"
  from Suc.prems(3) Suc.hyps(2) obtain k where n: "n = Suc k" and
    k: "length (edges m) + (q - Suc j) \<le> k" by (cases n) auto
  then have k': "length (edges m) \<le> k" by simp
  have out: "?e \<in> outgoing m v" using m e0 by (rule spoke_pow_outgoing)
  then have le: "?e < length (edges m)" by (simp add: outgoing_def)
  note p = seekTarget_props [OF m out]
  have sk: "seek k m (Some v) (Some ?e) = Ok (Some ?c)"
    using m v out k' by (rule seek_target)
  have pc: "pair (edges m ! ?c) = Some (spoke m v ?e)"
    using manifold_edge(5) [OF m p(5)] by (simp add: spoke_def)
  have out': "spoke m v ?e \<in> outgoing m v" using m out by (rule spoke_outgoing)
  then have le': "spoke m v ?e < length (edges m)" by (simp add: outgoing_def)
  from manifold_edge(11) [OF m le'] obtain h' where
    h': "head (edges m ! spoke m v ?e) = Some h'" "h' < length (vertices m)" by blast
  from e0 have le0: "e0 < length (edges m)" by (simp add: outgoing_def)
  from manifold_edge(11) [OF m le0] obtain h0 where
    h0: "head (edges m ! e0) = Some h0" "h0 < length (vertices m)" by blast
  have body: "neighbors_loop n m (Some v) (Some ?e) nbs =
      (if h' \<noteq> h0
       then neighbors_loop k m (Some v) (Some (spoke m v ?e)) (nbs @ [head (edges m ! ?e)])
       else Ok (nbs @ [head (edges m ! ?e)]))"
    using le sk p(5) pc le' h' h0 Suc.prems(2) m
    by (simp add: n deref_defs manifold_vID)
  show ?case
  proof (cases "h' = h0")
    case True
    with body show ?thesis by simp
  next
    case False
    have sj: "(spoke m v ^^ Suc j) e0 = spoke m v ?e" by simp
    have "Suc j \<noteq> q"
    proof
      assume "Suc j = q"
      with q sj have "spoke m v ?e = e0" by simp
      with h' h0 False show False by simp
    qed
    with Suc.prems(1) have lt: "Suc j < q" by simp
    from Suc.hyps(2) have d: "d = q - Suc j" by simp
    have hd: "hd ((nbs @ [head (edges m ! ?e)]) @ [head (edges m ! ((spoke m v ^^ Suc j) e0))]) =
        head (edges m ! e0)"
      using Suc.prems(2) by (cases nbs) simp_all
    from Suc.hyps(1) [OF d lt hd k] False body show ?thesis by simp
  qed
qed

lemma getVertexNeighbors_start:
  assumes m: "manifoldMesh m" and v: "v < length (vertices m)"
    and h: "vh (vertices m ! v) = Some e"
  shows "\<exists>m' e0. repairH m v = Ok m' \<and> agree {v} m m' \<and> vh (vertices m' ! v) = Some e0 \<and>
    e0 \<in> outgoing m v"
proof -
  from m v have "vertexOK m v" by (simp add: manifoldMesh_def)
  with h have e: "e < length (edges m)" and t: "head (edges m ! pv m e) = Some v"
    by (cases "prev (edges m ! e)"; simp add: vertexOK_def pv_def)+
  from manifold_edge(11) [OF m e] obtain hv where
    hv: "head (edges m ! e) = Some hv" "hv < length (vertices m)" by blast
  have rep: "repairH m v = Ok (if hv = v then setVh m v (Some (nx m e)) else m)"
    using v h e hv m by (simp add: repairH_def deref_defs manifold_vID manifold_edge(1))
  show ?thesis
  proof (cases "hv = v")
    case True
    have "nx m e \<in> outgoing m v"
      using manifold_edge(2,7) [OF m e] hv True by (simp add: outgoing_def)
    moreover have "agree {v} m (setVh m v (Some (nx m e)))"
      using agree_setVh [OF agree_refl [of "{}" m] v] by simp
    moreover have "vh (vertices (setVh m v (Some (nx m e))) ! v) = Some (nx m e)"
      using v by (simp add: setVh_def)
    ultimately show ?thesis using rep True by auto
  next
    case False
    have "e \<in> outgoing m v" using e t by (simp add: outgoing_def)
    with rep False h show ?thesis by (auto intro: agree_refl)
  qed
qed

lemma getVertexNeighbors_terminates:
  assumes m: "manifoldMesh m" and v: "v < length (vertices m)"
  shows "\<exists>m' nbs. getVertexNeighbors (2 * length (edges m) + k) m v = Ok (m', nbs)"
proof (cases "vh (vertices m ! v)")
  case None
  with v show ?thesis by (simp add: getVertexNeighbors_def deref_defs)
next
  case (Some e)
  from getVertexNeighbors_start [OF m v Some] obtain m' e0 where
    rep: "repairH m v = Ok m'" and ag: "agree {v} m m'" and
    h': "vh (vertices m' ! v) = Some e0" and out: "e0 \<in> outgoing m v" by blast
  from ag v have v': "v < length (vertices m')" and
    id': "vID (vertices m' ! v) = vID (vertices m ! v)" by (simp_all add: agree_def)
  from spoke_returns [OF m out] obtain q where
    q: "0 < q" "q \<le> length (edges m)" "(spoke m v ^^ q) e0 = e0" by blast
  have "\<exists>res. neighbors_loop (2 * length (edges m) + k) m (Some v)
      (Some ((spoke m v ^^ 0) e0)) [] = Ok res"
    using q(1,2) by (intro neighbors_loop_terminates [OF m v out q(3)]) auto
  then obtain nbs where
    "neighbors_loop (2 * length (edges m) + k) m (Some v) (Some e0) [] = Ok nbs" by auto
  then have "neighbors_loop (2 * length (edges m) + k) m' (Some v) (Some e0) [] = Ok nbs"
    by (simp add: neighbors_loop_agree [OF ag])
  with rep v v' h' id' Some m show ?thesis
    by (simp add: getVertexNeighbors_def deref_defs manifold_vID)
qed


lemma boundary_nx_pow:
  assumes "manifoldMesh m" and "facedMesh m"
  shows "e < length (edges m) \<Longrightarrow> face (edges m ! e) = None \<Longrightarrow>
    face (edges m ! ((nx m ^^ d) e)) = None"
proof (induction d)
  case 0
  then show ?case by simp
next
  case (Suc d)
  have "(nx m ^^ d) e < length (edges m)" using assms(1) Suc.prems(1) by (rule nx_pow_closed)
  with assms(2) have "edgeFaceOK m ((nx m ^^ d) e)" by (simp add: facedMesh_def)
  with Suc.IH [OF Suc.prems] show ?case by (simp add: edgeFaceOK_def)
qed

lemma boundary_spoke:
  assumes m: "manifoldMesh m" and f: "facedMesh m" and out: "e \<in> outgoing m v"
    and b: "face (edges m ! e) = None"
  shows "face (edges m ! spoke m v e) \<noteq> None"
proof -
  note p = seekTarget_props [OF m out]
  from out have e: "e < length (edges m)" by (simp add: outgoing_def)
  from boundary_nx_pow [OF m f e b] have "face (edges m ! seekTarget m v e) = None"
    by (simp add: p(4))
  moreover from f p(5) have "edgeFaceOK m (seekTarget m v e)" by (simp add: facedMesh_def)
  ultimately show ?thesis by (simp add: edgeFaceOK_def spoke_def)
qed

lemma face_inrange:
  "facedMesh m \<Longrightarrow> e < length (edges m) \<Longrightarrow> face (edges m ! e) = Some f \<Longrightarrow>
     f < length (faces m)"
  by (auto simp: facedMesh_def edgeFaceOK_def split: option.splits)

lemma faces_loop_terminates:
  assumes m: "manifoldMesh m" and f: "facedMesh m" and v: "v < length (vertices m)"
    and e0: "e0 \<in> outgoing m v" and q: "(spoke m v ^^ q) e0 = e0"
    and f0: "face (edges m ! e0) = Some g0"
  shows "i < q \<Longrightarrow> face (edges m ! ((spoke m v ^^ i) e0)) = Some g \<Longrightarrow>
    hd (fs @ [g]) = g0 \<Longrightarrow> length (edges m) + (q - i) \<le> n \<Longrightarrow>
    \<exists>res. faces_loop n m (Some v) (Some ((spoke m v ^^ i) e0)) fs = Ok res"
proof (induction "q - i" arbitrary: i g fs n rule: less_induct)
  case less
  let ?e = "(spoke m v ^^ i) e0"
  let ?c = "seekTarget m v ?e"
  let ?x = "spoke m v ?e"
  from less.prems(1,4) obtain k where n: "n = Suc k" and
    k: "length (edges m) + (q - Suc i) \<le> k" by (cases n) auto
  then have k': "length (edges m) \<le> k" by simp
  have out: "?e \<in> outgoing m v" using m e0 by (rule spoke_pow_outgoing)
  then have le: "?e < length (edges m)" by (simp add: outgoing_def)
  note p = seekTarget_props [OF m out]
  have sk: "seek k m (Some v) (Some ?e) = Ok (Some ?c)"
    using m v out k' by (rule seek_target)
  have pc: "pair (edges m ! ?c) = Some ?x"
    using manifold_edge(5) [OF m p(5)] by (simp add: spoke_def)
  have outx: "?x \<in> outgoing m v" using m out by (rule spoke_outgoing)
  then have lx: "?x < length (edges m)" by (simp add: outgoing_def)
  have sx: "(spoke m v ^^ Suc i) e0 = ?x" by simp
  have g0: "g0 < length (faces m)" using f e0 f0 by (auto simp: outgoing_def intro: face_inrange)
  have first: "(case fs @ [g] of [] \<Rightarrow> None | f0 # _ \<Rightarrow> Some f0) = Some g0"
    using less.prems(3) by (cases "fs @ [g]") auto
  show ?case
  proof (cases "face (edges m ! ?x)")
    case (Some gx)
    have gx: "gx < length (faces m)" using f lx Some by (rule face_inrange)
    have body: "faces_loop n m (Some v) (Some ?e) fs =
        (if fID (faces m ! gx) \<noteq> fID (faces m ! g0)
         then faces_loop k m (Some v) (Some ?x) (fs @ [g])
         else Ok (fs @ [g]))"
      using le sk p(5) pc lx Some gx g0 first less.prems(2)
      by (simp add: n deref_defs Let_def)
    show ?thesis
    proof (cases "fID (faces m ! gx) = fID (faces m ! g0)")
      case True
      with body show ?thesis by simp
    next
      case False
      have "Suc i \<noteq> q"
      proof
        assume "Suc i = q"
        with q sx have "?x = e0" by simp
        with Some f0 False show False by simp
      qed
      with less.prems(1) have lt: "Suc i < q" by simp
      have hd: "hd ((fs @ [g]) @ [gx]) = g0" using less.prems(3) by (cases fs) simp_all
      have "q - Suc i < q - i" using less.prems(1) by simp
      from less.hyps [OF this lt _ hd k] Some sx
      have "\<exists>res. faces_loop k m (Some v) (Some ?x) (fs @ [g]) = Ok res" by simp
      with False body show ?thesis by simp
    qed
  next
    case None
    let ?c2 = "seekTarget m v ?x"
    let ?y = "spoke m v ?x"
    note p2 = seekTarget_props [OF m outx]
    have sk2: "seek k m (Some v) (Some ?x) = Ok (Some ?c2)"
      using m v outx k' by (rule seek_target)
    have pc2: "pair (edges m ! ?c2) = Some ?y"
      using manifold_edge(5) [OF m p2(5)] by (simp add: spoke_def)
    have outy: "?y \<in> outgoing m v" using m outx by (rule spoke_outgoing)
    then have ly: "?y < length (edges m)" by (simp add: outgoing_def)
    from boundary_spoke [OF m f outx None] obtain gy where
      gy: "face (edges m ! ?y) = Some gy" by auto
    have gyl: "gy < length (faces m)" using f ly gy by (rule face_inrange)
    have sy: "(spoke m v ^^ Suc (Suc i)) e0 = ?y" by simp
    have body: "faces_loop n m (Some v) (Some ?e) fs =
        (if fID (faces m ! gy) \<noteq> fID (faces m ! g0)
         then faces_loop k m (Some v) (Some ?y) (fs @ [g])
         else Ok (fs @ [g]))"
      using le sk p(5) pc lx None sk2 p2(5) pc2 ly gy gyl g0 first less.prems(2)
      by (simp add: n deref_defs Let_def)
    show ?thesis
    proof (cases "fID (faces m ! gy) = fID (faces m ! g0)")
      case True
      with body show ?thesis by simp
    next
      case False
      have "Suc i \<noteq> q"
      proof
        assume "Suc i = q"
        with q sx have "?x = e0" by simp
        with None f0 show False by simp
      qed
      moreover have "Suc (Suc i) \<noteq> q"
      proof
        assume "Suc (Suc i) = q"
        with q sy have "?y = e0" by simp
        with gy f0 False show False by simp
      qed
      ultimately have lt: "Suc (Suc i) < q" using less.prems(1) by simp
      have hd: "hd ((fs @ [g]) @ [gy]) = g0" using less.prems(3) by (cases fs) simp_all
      have "q - Suc (Suc i) < q - i" using less.prems(1) by simp
      moreover have "length (edges m) + (q - Suc (Suc i)) \<le> k" using k by simp
      ultimately have "\<exists>res. faces_loop k m (Some v) (Some ?y) (fs @ [g]) = Ok res"
        using less.hyps [of "Suc (Suc i)" gy "fs @ [g]" k] lt gy sy hd by simp
      with False body show ?thesis by simp
    qed
  qed
qed


lemma boundary_pv:
  assumes m: "manifoldMesh m" and f: "facedMesh m" and b: "b < length (edges m)"
    and n: "face (edges m ! b) = None"
  shows "face (edges m ! pv m b) = None"
proof -
  from orbit_returns [OF _ nx_closed [OF m] nx_inj [OF m], of b] b
  obtain q where q: "0 < q" "(nx m ^^ q) b = b" by auto
  then obtain d where d: "q = Suc d" by (cases q) auto
  from pv_nx_pow [OF m b, of d] q(2) d have "(nx m ^^ d) b = pv m b" by simp
  with boundary_nx_pow [OF m f b n, of d] show ?thesis by simp
qed

lemma faces_loop_agree:
  assumes ag: "agree A m ma" and fa: "faces ma = faces m"
  shows "faces_loop n ma tid e fs = faces_loop n m tid e fs"
proof (induction n arbitrary: e fs)
  case 0
  show ?case by simp
next
  case (Suc n)
  have gf: "getF ma r = getF m r" for r by (simp add: getF_def fa)
  show ?case
    by (simp only: faces_loop.simps agree_getE [OF ag] seek_agree [OF ag] gf Suc.IH)
qed

lemma agree_faces_setVh: "faces (setVh m v r) = faces m"
  by (simp add: setVh_def)

lemma repairH_faces: "repairH m v = Ok m' \<Longrightarrow> faces m' = faces m"
  by (cases "getV m (Some v)"; cases "getE m (vh (vertices m ! v))";
      cases "getV m (head (edges m ! the (vh (vertices m ! v))))")
     (auto simp: repairH_def deref_defs agree_faces_setVh split: if_splits option.splits)

lemma getAttachedFaces_terminates:
  assumes m: "manifoldMesh m" and f: "facedMesh m" and v: "v < length (vertices m)"
  shows "\<exists>m' fs. getAttachedFaces (2 * length (edges m) + k) m v = Ok (m', fs)"
proof (cases "vh (vertices m ! v)")
  case None
  with v show ?thesis by (simp add: getAttachedFaces_def deref_defs)
next
  case (Some e)
  from getVertexNeighbors_start [OF m v Some] obtain m' e0 where
    rep: "repairH m v = Ok m'" and ag: "agree {v} m m'" and
    h': "vh (vertices m' ! v) = Some e0" and out: "e0 \<in> outgoing m v" by blast
  from ag v have v': "v < length (vertices m')" and
    id': "vID (vertices m' ! v) = vID (vertices m ! v)" by (simp_all add: agree_def)
  have fa: "faces m' = faces m" using rep by (rule repairH_faces)
  from f v Some have fe: "face (edges m ! e) \<noteq> None"
    by (auto simp: facedMesh_def split: option.splits)
  have "face (edges m ! e0) \<noteq> None"
  proof (cases "e0 = e")
    case True
    with fe show ?thesis by simp
  next
    case False
    from m v Some have el: "e < length (edges m)"
      by (auto simp: manifoldMesh_def vertexOK_def split: option.splits)
    from rep v Some el h' False have "e0 = nx m e"
      by (cases "getV m (head (edges m ! e))")
         (auto simp: repairH_def deref_defs setVh_def manifold_edge(1) [OF m el]
           split: if_splits)
    moreover have "face (edges m ! nx m e) \<noteq> None"
    proof
      assume "face (edges m ! nx m e) = None"
      from boundary_pv [OF m f manifold_edge(2) [OF m el] this] manifold_edge(7) [OF m el] fe
      show False by simp
    qed
    ultimately show ?thesis by simp
  qed
  then obtain g0 where g0: "face (edges m ! e0) = Some g0" by auto
  from spoke_returns [OF m out] obtain q where
    q: "0 < q" "q \<le> length (edges m)" "(spoke m v ^^ q) e0 = e0" by blast
  have "\<exists>res. faces_loop (2 * length (edges m) + k) m (Some v)
      (Some ((spoke m v ^^ 0) e0)) [] = Ok res"
    using q(1,2) g0 by (intro faces_loop_terminates [OF m f v out q(3) g0]) auto
  then obtain fs where
    "faces_loop (2 * length (edges m) + k) m (Some v) (Some e0) [] = Ok fs" by auto
  then have "faces_loop (2 * length (edges m) + k) m' (Some v) (Some e0) [] = Ok fs"
    by (simp add: faces_loop_agree [OF ag fa])
  with rep v v' h' id' Some m show ?thesis
    by (simp add: getAttachedFaces_def deref_defs manifold_vID)
qed


text \<open>
  C5, amended: on a manifold mesh with no dangling half-edge, both walks return at every
  vertex, each of their loops within \<open>2 * length (edges m)\<close> rounds. (Nothing is
  promised for other meshes: the source has no cap on the rounds and no
  \<open>NonManifoldError\<close>.)
\<close>

theorem spoke_walks_terminate:
  assumes "manifoldMesh m" and "facedMesh m" and "v < length (vertices m)"
  shows "(\<exists>m' nbs. getVertexNeighbors (2 * length (edges m) + k) m v = Ok (m', nbs)) \<and>
    (\<exists>m' fs. getAttachedFaces (2 * length (edges m) + k) m v = Ok (m', fs))"
  using getVertexNeighbors_terminates [OF assms(1,3)] getAttachedFaces_terminates [OF assms]
  by simp

lemma triangleMesh_fields:
  "length (edges (triangleMesh p0 c0 p1 c1 p2 c2)) = 6"
  "length (vertices (triangleMesh p0 c0 p1 c1 p2 c2)) = 3"
  "length (faces (triangleMesh p0 c0 p1 c1 p2 c2)) = 1"
  by (simp_all add: triangleMesh_def)

lemma triangleMesh_manifold:
  "manifoldMesh (triangleMesh p0 c0 p1 c1 p2 c2)"
  "facedMesh (triangleMesh p0 c0 p1 c1 p2 c2)"
  unfolding manifoldMesh_def facedMesh_def triangleMesh_fields
  by (simp_all add: less_Suc_eq numeral_eq_Suc all_conj_distrib edgeOK_def vertexOK_def
      edgeFaceOK_def nx_def pr_def triangleMesh_def)

theorem spoke_walks_terminate_witness:
  "manifoldMesh (triangleMesh (fromValues 0 0 0) gray (fromValues 1 0 0) gray
      (fromValues 0 1 0) gray) \<and>
   facedMesh (triangleMesh (fromValues 0 0 0) gray (fromValues 1 0 0) gray
      (fromValues 0 1 0) gray) \<and>
   (\<exists>m' nbs. getVertexNeighbors 12 (triangleMesh (fromValues 0 0 0) gray (fromValues 1 0 0) gray
      (fromValues 0 1 0) gray) 0 = Ok (m', nbs)) \<and>
   (\<exists>m' fs. getAttachedFaces 12 (triangleMesh (fromValues 0 0 0) gray (fromValues 1 0 0) gray
      (fromValues 0 1 0) gray) 0 = Ok (m', fs))"
  using spoke_walks_terminate [OF triangleMesh_manifold, of 0 "fromValues 0 0 0" gray
      "fromValues 1 0 0" gray "fromValues 0 1 0" gray 0]
    triangleMesh_manifold [of "fromValues 0 0 0" gray "fromValues 1 0 0" gray
      "fromValues 0 1 0" gray]
  by (simp add: triangleMesh_fields)


section \<open>Laplacian smoothing returns on a manifold mesh\<close>











section \<open>The faces on the two sides of an edge\<close>

lemma foldM_invariant:
  assumes "foldM f xs s = Ok s'" and "I s"
    and "\<And>x s s'. x \<in> set xs \<Longrightarrow> I s \<Longrightarrow> f x s = Ok s' \<Longrightarrow> I s'"
  shows "I s'"
  using assms
proof (induction xs arbitrary: s)
  case Nil
  then show ?case by simp
next
  case (Cons x xs)
  from Cons.prems(1) obtain s1 where s1: "f x s = Ok s1" and rest: "foldM f xs s1 = Ok s'"
    by (auto simp: rbind_Ok)
  have "I s1" by (rule Cons.prems(3) [OF _ Cons.prems(2) s1]) simp
  show ?case
  proof (rule Cons.IH [OF rest \<open>I s1\<close>])
    fix y t t'
    assume "y \<in> set xs" "I t" "f y t = Ok t'"
    then show "I t'" by (intro Cons.prems(3) [of y t t']) simp_all
  qed
qed

lemma fold_invariant:
  assumes "I s" and "\<And>x s. x \<in> set xs \<Longrightarrow> I s \<Longrightarrow> I (f x s)"
  shows "I (fold f xs s)"
  using assms by (induction xs arbitrary: s) simp_all

lemma set_AList_update: "set (AList.update k v al) \<subseteq> insert (k, v) (set al)"
  by (induction al) (auto split: if_splits)

lemma addFaceEdge_faced:
  assumes "addFaceEdge vertsi f k st = Ok st'" and "facedState st"
  shows "facedState st'"
proof -
  obtain m t m' t' where st: "st = (m, t)" "st' = (m', t')" by (cases st; cases st') auto
  from assms(1) obtain key x where
    e: "edges m' = edges m @ [x]" and x: "face x = Some f" and
    t: "t' = AList.update key (length (edges m)) t"
    by (auto simp: st addFaceEdge_def addHalfEdge_def Let_def setVh_def rbind_Ok
        split: option.splits)
  from assms(2) e x have "allFaced m'"
    by (auto simp: st facedState_def allFaced_def nth_append)
  moreover have "tableInside m' t'"
    unfolding tableInside_def
  proof clarify
    fix k h
    assume "(k, h) \<in> set t'"
    with set_AList_update [of key "length (edges m)" t] t
    have "h = length (edges m) \<or> (k, h) \<in> set t" by auto
    with assms(2) e show "h < length (edges m')"
      by (auto simp: st facedState_def tableInside_def)
  qed
  ultimately show ?thesis by (simp add: st facedState_def)
qed

lemma linkFaceEdge_faced:
  assumes "linkFaceEdge vertsi k m = Ok m'"
  shows "length (edges m') = length (edges m) \<and>
    (\<forall>e < length (edges m). face (edges m' ! e) = face (edges m ! e))"
  using assms
  by (auto simp: linkFaceEdge_def Let_def rbind_Ok getE_Ok nth_list_update)

lemma addFace_faced:
  assumes "addFace vs st = Ok st'" and "facedState st"
  shows "facedState st'"
proof -
  obtain m t m' t' where st: "st = (m, t)" "st' = (m', t')" by (cases st; cases st') auto
  let ?m1 = "m\<lparr>faces := faces m @ [newHFace]\<rparr>"
  let ?vertsi = "map (\<lambda>i. vertexAt ?m1 (Some i)) vs"
  from assms(1) obtain m2 where
    l1: "foldM (addFaceEdge ?vertsi (length (faces m))) [0..<length ?vertsi] (?m1, t) = Ok (m2, t')"
    and l2: "foldM (linkFaceEdge ?vertsi) [0..<length ?vertsi] m2 = Ok m'"
    by (auto simp: st addFace_def Let_def rbind_Ok)
  from assms(2) have "facedState (?m1, t)"
    by (simp add: st facedState_def allFaced_def tableInside_def)
  with l1 have 2: "facedState (m2, t')"
    by (rule foldM_invariant) (rule addFaceEdge_faced)
  from l2 2 have "facedState (m', t')"
    by (rule foldM_invariant [where I = "\<lambda>m. facedState (m, t')"])
       (auto dest!: linkFaceEdge_faced simp: facedState_def allFaced_def tableInside_def)
  then show ?thesis by (simp add: st)
qed


lemma pairEdge_paired:
  assumes "entry \<in> set t" and "pairedState t st"
  shows "pairedState t (pairEdge t entry st)"
proof -
  obtain a b h1 m be where en: "entry = ((a, b), h1)" and st: "st = (m, be)"
    by (cases entry; cases st) auto
  from assms have pw: "pairedWithFace m" and tf: "tableFaced m t" and
    h1: "h1 < length (edges m)" "face (edges m ! h1) \<noteq> None"
    by (auto simp: en st pairedState_def tableFaced_def)
  show ?thesis
  proof (cases "map_of t (b, a)")
    case (Some other)
    let ?m' = "m\<lparr>edges := (edges m)[h1 := (edges m ! h1)\<lparr>pair := Some other\<rparr>]\<rparr>"
    have fs: "face (edges ?m' ! e) = face (edges m ! e)" if "e < length (edges m)" for e
      using that h1 by (simp add: nth_list_update)
    have "pairedWithFace ?m'"
      unfolding pairedWithFace_def
    proof (intro allI impI)
      fix e
      assume e: "e < length (edges ?m')" and n: "face (edges ?m' ! e) = None"
      with fs h1 have "e \<noteq> h1" and "face (edges m ! e) = None" by auto
      with pw e obtain p where "pair (edges m ! e) = Some p" "p < length (edges m)"
        "face (edges m ! p) \<noteq> None" by (auto simp: pairedWithFace_def)
      with \<open>e \<noteq> h1\<close> fs show "\<exists>p. pair (edges ?m' ! e) = Some p \<and> p < length (edges ?m') \<and>
          face (edges ?m' ! p) \<noteq> None"
        by (auto simp: nth_list_update)
    qed
    moreover from tf fs have "tableFaced ?m' t" by (auto simp: tableFaced_def)
    ultimately show ?thesis using Some by (simp add: en st pairEdge_def pairedState_def)
  next
    case None
    let ?h2 = "length (edges m)"
    let ?es = "(edges m)[h1 := (edges m ! h1)\<lparr>pair := Some ?h2\<rparr>] @
        [newHEdge\<lparr>pair := Some h1, head := vertexAt m a\<rparr>]"
    let ?m' = "m\<lparr>edges := ?es\<rparr>"
    have fs: "face (?es ! e) = face (edges m ! e)" if "e < length (edges m)" for e
      using that h1 by (simp add: nth_append nth_list_update)
    have new: "?es ! ?h2 = newHEdge\<lparr>pair := Some h1, head := vertexAt m a\<rparr>"
      by (simp add: nth_append)
    have "pairedWithFace ?m'"
      unfolding pairedWithFace_def
    proof (intro allI impI)
      fix e
      assume e: "e < length (edges ?m')" and n: "face (edges ?m' ! e) = None"
      show "\<exists>p. pair (edges ?m' ! e) = Some p \<and> p < length (edges ?m') \<and>
          face (edges ?m' ! p) \<noteq> None"
      proof (cases "e = ?h2")
        case True
        with new h1 fs [of h1] show ?thesis by simp
      next
        case False
        with e have el: "e < length (edges m)" by simp
        with n fs h1 have "e \<noteq> h1" and "face (edges m ! e) = None" by auto
        with pw el obtain p where "pair (edges m ! e) = Some p" "p < length (edges m)"
          "face (edges m ! p) \<noteq> None" by (auto simp: pairedWithFace_def)
        with \<open>e \<noteq> h1\<close> el fs [of p] show ?thesis
          by (auto simp: nth_append nth_list_update)
      qed
    qed
    moreover from tf fs have "tableFaced ?m' t" by (auto simp: tableFaced_def)
    ultimately show ?thesis
      using None by (simp add: en st pairEdge_def pairedState_def Let_def)
  qed
qed

lemma linkBoundary_Ok:
  assumes "linkBoundary be key m = Ok m'"
  obtains i where "map_of be key = Some i" and "i < length (edges m)"
    and "nxt (edges m ! i) \<noteq> None" and "m' = m"
  | i hv j where "map_of be key = Some i" and "i < length (edges m)"
    and "nxt (edges m ! i) = None" and "getV m (head (edges m ! i)) = Ok hv"
    and "map_of be (vID hv) = Some j" and "j < length (edges m)"
    and "m' = m\<lparr>edges := ((edges m)[i := (edges m ! i)\<lparr>nxt := Some j\<rparr>])
          [j := ((edges m)[i := (edges m ! i)\<lparr>nxt := Some j\<rparr>] ! j)\<lparr>prev := Some i\<rparr>]\<rparr>"
proof -
  from assms obtain i where i: "map_of be key = Some i" "i < length (edges m)"
    by (auto simp: linkBoundary_def Let_def rbind_Ok getE_Ok)
  show ?thesis
  proof (cases "nxt (edges m ! i) = None")
    case False
    with assms i have "m' = m" by (simp add: linkBoundary_def Let_def getE_def deref_def)
    with i False show ?thesis by (rule that(1))
  next
    case True
    note lb = linkBoundary_def Let_def getE_def deref_def
    show ?thesis
    proof (cases "getV m (head (edges m ! i))")
      case (Ok hv)
      show ?thesis
      proof (cases "map_of be (vID hv)")
        case None
        with assms i True Ok show ?thesis by (simp add: lb)
      next
        case (Some j)
        show ?thesis
        proof (cases "j < length (edges m)")
          case False
          with assms i True Ok Some show ?thesis by (simp add: lb)
        next
          case jl: True
          with assms i True Ok Some have
            "m' = m\<lparr>edges := ((edges m)[i := (edges m ! i)\<lparr>nxt := Some j\<rparr>])
              [j := ((edges m)[i := (edges m ! i)\<lparr>nxt := Some j\<rparr>] ! j)\<lparr>prev := Some i\<rparr>]\<rparr>"
            by (simp add: lb)
          with i True Ok Some jl show ?thesis by (rule that(2))
        qed
      qed
    next
      case (Err x)
      with assms i True show ?thesis by (simp add: lb)
    next
      case OutOfFuel
      with assms i True show ?thesis by (simp add: lb)
    qed
  qed
qed

lemma linkBoundary_fields:
  assumes "linkBoundary be key m = Ok m'"
  shows "length (edges m') = length (edges m) \<and>
    (\<forall>e < length (edges m). face (edges m' ! e) = face (edges m ! e) \<and>
       pair (edges m' ! e) = pair (edges m ! e))"
  using assms by (rule linkBoundary_Ok) (simp_all add: nth_list_update)

lemma linkBoundary_paired:
  assumes "linkBoundary be key m = Ok m'" and "pairedWithFace m"
  shows "pairedWithFace m'"
  using linkBoundary_fields [OF assms(1)] assms(2)
  by (auto simp: pairedWithFace_def)

lemma numberAll_paired: "pairedWithFace m \<Longrightarrow> pairedWithFace (numberAll m)"
  by (auto simp: pairedWithFace_def numberAll_def nth_enumerate_eq)

lemma loadFileFromLines_steps:
  assumes "loadFileFromLines pcs fs = Ok m"
  shows "\<exists>m1 t m2 be m3.
    foldM addFace fs (\<lparr>vertices = addVertices pcs, edges = [], faces = [],
      needsDisplayUpdate = False\<rparr>, []) = Ok (m1, t) \<and>
    fold (pairEdge t) t (m1, []) = (m2, be) \<and>
    foldM (linkBoundary be) (keyOrder be) m2 = Ok m3 \<and> m = numberAll m3"
proof -
  let ?m0 = "\<lparr>vertices = addVertices pcs, edges = [], faces = [], needsDisplayUpdate = False\<rparr>"
  from assms obtain m1 t where
    s3: "foldM addFace fs (?m0, []) = Ok (m1, t)" and
    r: "(case fold (pairEdge t) t (m1, []) of (m2, be) \<Rightarrow>
          rbind (foldM (linkBoundary be) (keyOrder be) m2) (\<lambda>m3. Ok (numberAll m3))) = Ok m"
    by (auto simp: loadFileFromLines_def Let_def rbind_Ok)
  obtain m2 be where s4: "fold (pairEdge t) t (m1, []) = (m2, be)"
    by (cases "fold (pairEdge t) t (m1, [])") auto
  with r obtain m3 where "foldM (linkBoundary be) (keyOrder be) m2 = Ok m3" "m = numberAll m3"
    by (auto simp: rbind_Ok)
  with s3 s4 show ?thesis by blast
qed

lemma loadFileFromLines_paired:
  assumes "loadFileFromLines pcs fs = Ok m"
  shows "pairedWithFace m"
proof -
  let ?m0 = "\<lparr>vertices = addVertices pcs, edges = [], faces = [], needsDisplayUpdate = False\<rparr>"
  from loadFileFromLines_steps [OF assms] obtain m1 t m2 be m3 where
    s3: "foldM addFace fs (?m0, []) = Ok (m1, t)" and
    s4: "fold (pairEdge t) t (m1, []) = (m2, be)" and
    s5: "foldM (linkBoundary be) (keyOrder be) m2 = Ok m3" and
    s6: "m = numberAll m3"
    by blast
  have "facedState (?m0, ([] :: (edgeKey \<times> nat) list))"
    by (simp add: facedState_def allFaced_def tableInside_def)
  with s3 have "facedState (m1, t)" by (rule foldM_invariant) (rule addFace_faced)
  then have "pairedState t (m1, ([] :: (nat option \<times> nat) list))"
    by (auto simp: facedState_def pairedState_def pairedWithFace_def tableFaced_def
        allFaced_def tableInside_def)
  then have "pairedState t (fold (pairEdge t) t (m1, []))"
    by (rule fold_invariant) (rule pairEdge_paired)
  with s4 have "pairedWithFace m2" by (simp add: pairedState_def)
  with s5 have "pairedWithFace m3"
    by (rule foldM_invariant) (rule linkBoundary_paired)
  with s6 show ?thesis by (simp add: numberAll_paired)
qed


text \<open>
  C10: in the mesh of \<open>makeTriangle\<close>, and in every mesh that \<open>loadFileFromLines\<close>
  returns, whatever the input, no half-edge and its pair are both without a face: every
  half-edge without a face is paired with a half-edge of the mesh that has one.
\<close>

theorem boundary_paired_with_interior:
  "pairedWithFace makeTriangle \<and> (loadFileFromLines pcs fs = Ok m \<longrightarrow> pairedWithFace m)"
proof
  show "pairedWithFace makeTriangle"
    unfolding pairedWithFace_def makeTriangle_edges
    by (simp add: less_Suc_eq numeral_eq_Suc all_conj_distrib)
  show "loadFileFromLines pcs fs = Ok m \<longrightarrow> pairedWithFace m"
    by (simp add: loadFileFromLines_paired)
qed

theorem boundary_paired_with_interior_witness:
  "loadFileFromLines [(fromValues 0 0 0, gray), (fromValues 1 0 0, gray), (fromValues 0 1 0, gray)]
      [[0, 1, 2]] =
     Ok (triangleMesh (fromValues 0 0 0) gray (fromValues 1 0 0) gray (fromValues 0 1 0) gray) \<and>
   pairedWithFace
     (triangleMesh (fromValues 0 0 0) gray (fromValues 1 0 0) gray (fromValues 0 1 0) gray)"
  using boundary_paired_with_interior [THEN conjunct2, rule_format, OF load_triangle]
    load_triangle
  by (intro conjI)


section \<open>The construction, step by step\<close>

lemma foldM_append: "foldM f (xs @ ys) s = rbind (foldM f xs s) (foldM f ys)"
proof (induction xs arbitrary: s)
  case Nil
  show ?case by simp
next
  case (Cons x xs)
  then show ?case by (cases "f x s") simp_all
qed

lemma foldM_single: "foldM f [x] s = f x s"
  by (cases "f x s") simp_all

lemma foldM_upt_Suc: "foldM f [0..<Suc j] s = rbind (foldM f [0..<j] s) (f j)"
proof -
  have "foldM f [j] = f j" by (rule ext) (rule foldM_single)
  then show ?thesis by (simp add: foldM_append)
qed

lemma AList_update_fresh: "k \<notin> fst ` set al \<Longrightarrow> AList.update k v al = al @ [(k, v)]"
  by (induction al) auto

lemma addFaceEdge_step:
  assumes "k < length vs" and "vs ! k < length (vertices m)"
    and "vs ! ((k + 1) mod length vs) < length (vertices m)"
  shows "addFaceEdge (map Some vs) f k (m, t) =
    Ok (m\<lparr>vertices := (vertices m)[vs ! k := (vertices m ! (vs ! k))\<lparr>vh := Some (length (edges m))\<rparr>],
          edges := edges m @ [newHEdge\<lparr>head := Some (vs ! ((k + 1) mod length vs)), face := Some f\<rparr>],
          faces := (faces m)[f := (faces m ! f)\<lparr>fh := Some (length (edges m))\<rparr>]\<rparr>,
        AList.update (vID (vertices m ! (vs ! k)), vID (vertices m ! (vs ! ((k + 1) mod length vs))))
          (length (edges m)) t)"
proof -
  from assms(1) have "0 < length vs" by (cases vs) simp_all
  then have k': "(k + 1) mod length vs < length vs" by (rule mod_less_divisor)
  with assms show ?thesis
    by (simp add: addFaceEdge_def addHalfEdge_def vertexAt_def setVh_def getV_def deref_def
        Let_def nth_list_update)
qed


lemma dedges_nth:
  "k < length vs \<Longrightarrow> dedges vs ! k = (vs ! k, vs ! ((k + 1) mod length vs))"
  by (simp add: dedges_def)

lemma length_dedges [simp]: "length (dedges vs) = length vs"
  by (simp add: dedges_def)

lemma succ_mod_less: "k < n \<Longrightarrow> (k + 1) mod n < (n::nat)"
  by (cases n) simp_all

lemma addFaceEdge_loop:
  assumes d: "distinct vs" and r: "\<forall>v\<in>set vs. v < length (vertices m1)"
    and ids: "\<forall>i < length (vertices m1). vID (vertices m1 ! i) = Some i"
    and fresh: "\<forall>k < length vs. (Some (fst (dedges vs ! k)), Some (snd (dedges vs ! k))) \<notin> fst ` set t"
  shows "j \<le> length vs \<Longrightarrow>
    \<exists>st. foldM (addFaceEdge (map Some vs) f) [0..<j] (m1, t) = Ok st \<and> added m1 t vs f j st"
proof (induction j)
  case 0
  show ?case by (simp add: added_def)
next
  case (Suc j)
  then have j: "j < length vs" by simp
  from Suc obtain m' t' where run: "foldM (addFaceEdge (map Some vs) f) [0..<j] (m1, t) = Ok (m', t')"
    and inv: "added m1 t vs f j (m', t')" by auto
  let ?b = "length (edges m1)"
  let ?k' = "(j + 1) mod length vs"
  from j have k': "?k' < length vs" by (rule succ_mod_less)
  from inv have e': "length (edges m') = ?b + j" and lv: "length (vertices m') = length (vertices m1)"
    by (simp_all add: added_def)
  from j k' r lv have vj: "vs ! j < length (vertices m')" "vs ! ?k' < length (vertices m')"
    by simp_all
  let ?m'' = "m'\<lparr>vertices := (vertices m')[vs ! j := (vertices m' ! (vs ! j))\<lparr>vh := Some (length (edges m'))\<rparr>],
      edges := edges m' @ [newHEdge\<lparr>head := Some (vs ! ?k'), face := Some f\<rparr>],
      faces := (faces m')[f := (faces m' ! f)\<lparr>fh := Some (length (edges m'))\<rparr>]\<rparr>"
  let ?t'' = "AList.update (vID (vertices m' ! (vs ! j)), vID (vertices m' ! (vs ! ?k')))
      (length (edges m')) t'"
  have step: "addFaceEdge (map Some vs) f j (m', t') = Ok (?m'', ?t'')"
    using j vj by (rule addFaceEdge_step)
  from inv vj lv ids have idj: "vID (vertices m' ! (vs ! j)) = Some (vs ! j)"
    "vID (vertices m' ! (vs ! ?k')) = Some (vs ! ?k')"
    by (simp_all add: added_def)
  have key: "(Some (vs ! j), Some (vs ! ?k')) \<notin> fst ` set t'"
  proof
    assume "(Some (vs ! j), Some (vs ! ?k')) \<in> fst ` set t'"
    with inv have "(Some (vs ! j), Some (vs ! ?k')) \<in> fst ` set t \<or>
        (\<exists>k<j. (Some (vs ! j), Some (vs ! ?k')) = (Some (fst (dedges vs ! k)), Some (snd (dedges vs ! k))))"
      by (auto simp: added_def image_Un)
    then show False
    proof
      assume "(Some (vs ! j), Some (vs ! ?k')) \<in> fst ` set t"
      with fresh j show False by (auto simp: dedges_nth)
    next
      assume "\<exists>k<j. (Some (vs ! j), Some (vs ! ?k')) = (Some (fst (dedges vs ! k)), Some (snd (dedges vs ! k)))"
      then obtain k where "k < j" "vs ! j = vs ! k" using j by (auto simp: dedges_nth)
      with d j show False by (auto simp: nth_eq_iff_index_eq)
    qed
  qed
  have t'': "?t'' = t' @ [((Some (vs ! j), Some (vs ! ?k')), ?b + j)]"
    unfolding idj e' by (rule AList_update_fresh [OF key])
  have "added m1 t vs f (Suc j) (?m'', ?t'')"
    unfolding added_def t''
  proof (simp only: prod.case, intro conjI allI impI)
    show "edges ?m'' = edges m1 @
        map (\<lambda>k. newHEdge\<lparr>head := Some (snd (dedges vs ! k)), face := Some f\<rparr>) [0..<Suc j]"
      using inv j by (simp add: added_def dedges_nth)
    show "t' @ [((Some (vs ! j), Some (vs ! ?k')), ?b + j)] =
        t @ map (\<lambda>k. ((Some (fst (dedges vs ! k)), Some (snd (dedges vs ! k))), ?b + k)) [0..<Suc j]"
      using inv j by (simp add: added_def dedges_nth)
    show "length (vertices ?m'') = length (vertices m1)" using lv by simp
    show "length (faces ?m'') = length (faces m1)" using inv by (simp add: added_def)
  next
    fix i assume "i < length (vertices m1)"
    with inv lv vj show "vID (vertices ?m'' ! i) = vID (vertices m1 ! i)"
      by (simp add: added_def nth_list_update)
  next
    fix k assume "k < Suc j"
    show "vh (vertices ?m'' ! (vs ! k)) = Some (?b + k)"
    proof (cases "k = j")
      case True
      with vj e' show ?thesis by simp
    next
      case False
      with \<open>k < Suc j\<close> have kj: "k < j" by simp
      with d j have "vs ! k \<noteq> vs ! j" by (auto simp: nth_eq_iff_index_eq)
      with inv kj vj show ?thesis by (simp add: added_def nth_list_update)
    qed
  next
    fix i assume i: "i < length (vertices m1)" "i \<notin> set (take (Suc j) vs)"
    with j have "i \<noteq> vs ! j" "i \<notin> set (take j vs)"
      by (auto simp: take_Suc_conv_app_nth)
    with inv i vj show "vh (vertices ?m'' ! i) = vh (vertices m1 ! i)"
      by (simp add: added_def nth_list_update)
  qed
  moreover have "foldM (addFaceEdge (map Some vs) f) [0..<Suc j] (m1, t) = Ok (?m'', ?t'')"
    by (simp only: foldM_upt_Suc run rbind.simps step)
  ultimately show ?case by blast
qed


lemma linkFaceEdge_step:
  assumes "k < length vs" and "vs ! k < length (vertices m)"
    and "vs ! ((k + 1) mod length vs) < length (vertices m)"
    and "vh (vertices m ! (vs ! k)) = Some h1"
    and "vh (vertices m ! (vs ! ((k + 1) mod length vs))) = Some h2"
    and "h1 < length (edges m)" and "h2 < length (edges m)"
  shows "linkFaceEdge (map Some vs) k m =
    Ok (m\<lparr>edges := ((edges m)[h1 := (edges m ! h1)\<lparr>nxt := Some h2\<rparr>])
          [h2 := ((edges m)[h1 := (edges m ! h1)\<lparr>nxt := Some h2\<rparr>] ! h2)\<lparr>prev := Some h1\<rparr>]\<rparr>)"
proof -
  from assms(1) have "(k + 1) mod length vs < length vs" by (rule succ_mod_less)
  with assms show ?thesis
    by (simp add: linkFaceEdge_def getV_def getE_def deref_def Let_def)
qed

lemma pred_succ_mod: "j < n \<Longrightarrow> ((j + 1) mod n + n - 1) mod n = (j::nat)"
proof (cases "j + 1 = n")
  case True
  assume "j < n"
  with True show ?thesis by simp
next
  case False
  assume "j < n"
  with False have "j + 1 < n" by simp
  then have "(j + 1) mod n = j + 1" by simp
  with \<open>j < n\<close> show ?thesis by simp
qed

lemma succ_pred_mod: "k < n \<Longrightarrow> ((k + n - 1) mod n + 1) mod n = (k::nat)"
proof (cases k)
  case 0
  assume "k < n"
  with 0 show ?thesis by (cases n) simp_all
next
  case (Suc i)
  assume "k < n"
  with Suc have "(k + n - 1) mod n = i" by (simp add: mod_if)
  with Suc \<open>k < n\<close> show ?thesis by simp
qed

lemma pred_mod_less: "k < n \<Longrightarrow> (k + n - 1) mod n < (n::nat)"
  by (cases n) simp_all


lemma linkFaceEdge_loop:
  assumes r: "\<forall>v\<in>set vs. v < length (vertices m2)"
    and b: "length (edges m2) = b + length vs"
    and vhs: "\<forall>k < length vs. vh (vertices m2 ! (vs ! k)) = Some (b + k)"
  shows "j \<le> length vs \<Longrightarrow>
    \<exists>m'. foldM (linkFaceEdge (map Some vs)) [0..<j] m2 = Ok m' \<and> chained m2 b (length vs) j m'"
proof (induction j)
  case 0
  show ?case by (simp add: chained_def)
next
  case (Suc j)
  let ?n = "length vs"
  let ?k' = "(j + 1) mod ?n"
  let ?h1 = "b + j"
  let ?h2 = "b + ?k'"
  from Suc have j: "j < ?n" by simp
  then have k': "?k' < ?n" by (rule succ_mod_less)
  from Suc obtain m' where run: "foldM (linkFaceEdge (map Some vs)) [0..<j] m2 = Ok m'"
    and inv: "chained m2 b ?n j m'" by auto
  from inv have vs': "vertices m' = vertices m2" and le: "length (edges m') = b + ?n"
    by (simp_all add: chained_def b)
  let ?es1 = "(edges m')[?h1 := (edges m' ! ?h1)\<lparr>nxt := Some ?h2\<rparr>]"
  let ?m'' = "m'\<lparr>edges := ?es1[?h2 := (?es1 ! ?h2)\<lparr>prev := Some ?h1\<rparr>]\<rparr>"
  have step: "linkFaceEdge (map Some vs) j m' = Ok ?m''"
    using j k' r vhs le by (intro linkFaceEdge_step) (simp_all add: vs')
  have h1l: "?h1 < length (edges m')" and h2l: "?h2 < length (edges m')"
    using j k' le by simp_all
  have fields: "head (edges ?m'' ! e) = head (edges m' ! e) \<and>
      face (edges ?m'' ! e) = face (edges m' ! e) \<and> pair (edges ?m'' ! e) = pair (edges m' ! e)"
    if "e < length (edges m')" for e
    using that h1l h2l by (simp add: nth_list_update)
  have nx: "nxt (edges ?m'' ! (b + k)) = (if k = j then Some ?h2 else nxt (edges m' ! (b + k)))"
    if "k < ?n" for k
    using that h1l h2l le by (simp add: nth_list_update)
  have pv: "prev (edges ?m'' ! (b + k)) = (if k = ?k' then Some ?h1 else prev (edges m' ! (b + k)))"
    if "k < ?n" for k
    using that h1l h2l le by (simp add: nth_list_update)
  have ex: "(\<exists>i<Suc j. (i + 1) mod ?n = k) \<longleftrightarrow> k = ?k' \<or> (\<exists>i<j. (i + 1) mod ?n = k)" for k
    by (auto simp: less_Suc_eq)
  have "chained m2 b ?n (Suc j) ?m''"
    unfolding chained_def
  proof (intro conjI allI impI)
    show "vertices ?m'' = vertices m2" by (simp add: vs')
    show "faces ?m'' = faces m2" using inv by (simp add: chained_def)
    show "length (edges ?m'') = length (edges m2)" using le b by simp
  next
    fix e assume "e < length (edges m2)"
    with le b have "e < length (edges m')" by simp
    from fields [OF this] inv \<open>e < length (edges m2)\<close>
    show "head (edges ?m'' ! e) = head (edges m2 ! e)"
      "face (edges ?m'' ! e) = face (edges m2 ! e)" "pair (edges ?m'' ! e) = pair (edges m2 ! e)"
      by (simp_all add: chained_def)
  next
    fix e assume "e < b"
    with inv h1l h2l show "edges ?m'' ! e = edges m2 ! e"
      by (simp add: chained_def nth_list_update)
  next
    fix k assume k: "k < ?n"
    from nx [OF k] inv k show "nxt (edges ?m'' ! (b + k)) =
        (if k < Suc j then Some (b + (k + 1) mod ?n) else nxt (edges m2 ! (b + k)))"
      by (auto simp: chained_def less_Suc_eq)
  next
    fix k assume k: "k < ?n"
    show "prev (edges ?m'' ! (b + k)) =
        (if \<exists>i<Suc j. (i + 1) mod ?n = k then Some (b + (k + ?n - 1) mod ?n)
         else prev (edges m2 ! (b + k)))"
    proof (cases "k = ?k'")
      case True
      with pv [OF k] pred_succ_mod [OF j] ex [of k] show ?thesis by simp
    next
      case False
      with pv [OF k] inv k ex [of k] show ?thesis by (simp add: chained_def)
    qed
  qed
  moreover have "foldM (linkFaceEdge (map Some vs)) [0..<Suc j] m2 = Ok ?m''"
    by (simp only: foldM_upt_Suc run rbind.simps step)
  ultimately show ?case by blast
qed


section \<open>The half-edge that a duplicate replaces\<close>

lemma AList_update_entries:
  "distinct (map fst al) \<Longrightarrow> (k', v') \<in> set (AList.update k v al) \<Longrightarrow>
   (k', v') = (k, v) \<or> ((k', v') \<in> set al \<and> k' \<noteq> k)"
  by (induction al) (auto split: if_splits simp: rev_image_eqI)

lemma addFaceEdge_keyed:
  assumes run: "addFaceEdge vertsi f k st = Ok st'" and inv: "lastKeyed K st"
  shows "\<exists>a b. vertsi ! k = Some a \<and> vertsi ! ((k + 1) mod length vertsi) = Some b \<and>
    lastKeyed (K @ [(Some a, Some b)]) st'"
proof -
  obtain m t where st: "st = (m, t)" by (cases st)
  let ?v1 = "vertsi ! k" and ?v2 = "vertsi ! ((k + 1) mod length vertsi)"
  from run st obtain i where i: "?v1 = Some i" "i < length (vertices m)"
    by (cases ?v1)
       (auto simp: addFaceEdge_def Let_def addHalfEdge_def vertexAt_def split: if_splits)
  let ?m1 = "(setVh m i (Some (length (edges m))))
      \<lparr>edges := edges m @ [newHEdge\<lparr>head := ?v2, face := Some f\<rparr>]\<rparr>"
  have ah: "addHalfEdge m ?v1 ?v2 f = Ok (?m1, length (edges m))"
    using i by (simp add: addHalfEdge_def vertexAt_def Let_def setVh_def)
  have lv: "length (vertices ?m1) = length (vertices m)" by (simp add: setVh_def)
  have ids: "vID (vertices ?m1 ! x) = vID (vertices m ! x)" if "x < length (vertices m)" for x
    using that i(2) by (simp add: setVh_def nth_list_update)
  from run st ah have "\<exists>b. getV ?m1 ?v2 = Ok b"
    by (auto simp: addFaceEdge_def Let_def rbind_Ok)
  then obtain j where j: "?v2 = Some j" "j < length (vertices m)"
    unfolding getV_Ok lv by blast
  from inv st have vid: "\<forall>x < length (vertices m). vID (vertices m ! x) = Some x"
    by (simp add: lastKeyed_def)
  let ?t' = "AList.update (Some i, Some j) (length (edges m)) t"
  let ?m' = "?m1\<lparr>faces := (faces ?m1)[f := (faces ?m1 ! f)\<lparr>fh := Some (length (edges m))\<rparr>]\<rparr>"
  have res: "st' = (?m', ?t')"
    using run st ah i j vid ids lv
    by (simp add: addFaceEdge_def Let_def getV_def deref_def del: One_nat_def)
  from inv st have len: "length (edges m) = length K" and dist: "distinct (map fst t)"
    and pn: "\<forall>e < length K. pair (edges m ! e) = None"
    and ent: "\<forall>(k, e) \<in> set t. e < length K \<and> K ! e = k \<and>
           (\<forall>e'. e < e' \<and> e' < length K \<longrightarrow> K ! e' \<noteq> k)"
    by (simp_all add: lastKeyed_def)
  let ?K = "K @ [(Some i, Some j)]"
  have 1: "length (edges ?m') = length ?K" using len by simp
  have 2: "distinct (map fst ?t')" using dist by (rule AList.distinct_update)
  have 3: "\<forall>x < length (vertices ?m'). vID (vertices ?m' ! x) = Some x"
    using vid i(2) by (simp add: setVh_def nth_list_update)
  have 4: "\<forall>e < length ?K. pair (edges ?m' ! e) = None"
    using pn len by (auto simp: nth_append newHEdge_def setVh_def less_Suc_eq)
  have 5: "\<forall>(k, e) \<in> set ?t'. e < length ?K \<and> ?K ! e = k \<and>
           (\<forall>e'. e < e' \<and> e' < length ?K \<longrightarrow> ?K ! e' \<noteq> k)"
  proof (clarify, intro conjI allI impI)
    fix a b e
    assume mem: "((a, b), e) \<in> set ?t'"
    from AList_update_entries [OF dist mem] have
      c: "((a, b), e) = ((Some i, Some j), length (edges m)) \<or>
          (((a, b), e) \<in> set t \<and> (a, b) \<noteq> (Some i, Some j))" .
    show "e < length ?K" using c ent len by auto
    show "?K ! e = (a, b)" using c ent len by (auto simp: nth_append)
    fix e'
    assume "e < e' \<and> e' < length ?K"
    then show "?K ! e' \<noteq> (a, b)" using c ent len
      by (auto simp: nth_append less_Suc_eq)
  qed
  from 1 2 3 4 5 have "lastKeyed ?K (?m', ?t')"
    unfolding lastKeyed_def prod.case by (intro conjI)
  with res i j show ?thesis by auto
qed


lemma addFaceEdge_loop_keyed:
  "j \<le> length vertsi \<Longrightarrow> foldM (addFaceEdge vertsi f) [0..<j] st = Ok st' \<Longrightarrow>
   lastKeyed K st \<Longrightarrow>
   (\<forall>k < j. vertsi ! k \<noteq> None \<and> vertsi ! ((k + 1) mod length vertsi) \<noteq> None) \<and>
   lastKeyed (K @ map (\<lambda>k. (vertsi ! k, vertsi ! ((k + 1) mod length vertsi))) [0..<j]) st'"
proof (induction j arbitrary: st')
  case 0
  then show ?case by simp
next
  case (Suc j)
  from Suc.prems(2) obtain s1 where
    run: "foldM (addFaceEdge vertsi f) [0..<j] st = Ok s1" and
    step: "addFaceEdge vertsi f j s1 = Ok st'"
    by (auto simp only: foldM_upt_Suc rbind_Ok)
  from Suc.prems(1) have "j \<le> length vertsi" by simp
  from Suc.IH [OF this run Suc.prems(3)] have
    some: "\<forall>k < j. vertsi ! k \<noteq> None \<and> vertsi ! ((k + 1) mod length vertsi) \<noteq> None" and
    inv: "lastKeyed (K @ map (\<lambda>k. (vertsi ! k, vertsi ! ((k + 1) mod length vertsi))) [0..<j]) s1"
    by simp_all
  from addFaceEdge_keyed [OF step inv] obtain a b where
    ab: "vertsi ! j = Some a" "vertsi ! ((j + 1) mod length vertsi) = Some b" and
    inv': "lastKeyed ((K @ map (\<lambda>k. (vertsi ! k, vertsi ! ((k + 1) mod length vertsi))) [0..<j])
       @ [(Some a, Some b)]) st'" by blast
  from some ab have "\<forall>k < Suc j. vertsi ! k \<noteq> None \<and> vertsi ! ((k + 1) mod length vertsi) \<noteq> None"
    by (auto simp: less_Suc_eq)
  moreover from inv' ab have
    "lastKeyed (K @ map (\<lambda>k. (vertsi ! k, vertsi ! ((k + 1) mod length vertsi))) [0..<Suc j]) st'"
    by simp
  ultimately show ?case by blast
qed

lemma linkFaceEdge_keyed:
  assumes "linkFaceEdge vertsi k m = Ok m'" and "lastKeyed K (m, t)"
  shows "lastKeyed K (m', t)"
proof -
  from assms(1) have "vertices m' = vertices m" "length (edges m') = length (edges m)"
    "\<forall>e < length (edges m). pair (edges m' ! e) = pair (edges m ! e)"
    by (auto simp: linkFaceEdge_def Let_def rbind_Ok getE_Ok nth_list_update)
  with assms(2) show ?thesis by (simp add: lastKeyed_def)
qed

lemma addFace_keyed:
  assumes run: "addFace vs st = Ok st'" and inv: "lastKeyed K st"
  shows "lastKeyed (K @ map (map_prod Some Some) (dedges vs)) st'"
proof -
  obtain m t where st: "st = (m, t)" by (cases st)
  let ?m1 = "m\<lparr>faces := faces m @ [newHFace]\<rparr>"
  let ?vertsi = "map (\<lambda>i. vertexAt ?m1 (Some i)) vs"
  from run st obtain m2 t2 m3 where
    l1: "foldM (addFaceEdge ?vertsi (length (faces m))) [0..<length ?vertsi] (?m1, t) = Ok (m2, t2)"
    and l2: "foldM (linkFaceEdge ?vertsi) [0..<length ?vertsi] m2 = Ok m3"
    and res: "st' = (m3, t2)"
    by (auto simp: addFace_def Let_def rbind_Ok)
  from inv st have inv1: "lastKeyed K (?m1, t)" by (simp add: lastKeyed_def)
  from addFaceEdge_loop_keyed [OF le_refl l1 inv1] have
    some: "\<forall>k < length ?vertsi. ?vertsi ! k \<noteq> None" and
    inv2: "lastKeyed (K @ map (\<lambda>k. (?vertsi ! k, ?vertsi ! ((k + 1) mod length ?vertsi)))
      [0..<length ?vertsi]) (m2, t2)" by simp_all
  have at: "?vertsi ! k = Some (vs ! k)" if "k < length vs" for k
    using some that by (auto simp: vertexAt_def split: if_splits)
  have "map (\<lambda>k. (?vertsi ! k, ?vertsi ! ((k + 1) mod length ?vertsi))) [0..<length ?vertsi] =
        map (map_prod Some Some) (dedges vs)"
    unfolding dedges_def map_map length_map
  proof (rule map_cong [OF refl])
    fix k
    assume "k \<in> set [0..<length vs]"
    then have k: "k < length vs" by simp
    then have "(k + 1) mod length vs < length vs" by (rule succ_mod_less)
    with k show "(?vertsi ! k, ?vertsi ! ((k + 1) mod length vs)) =
        (map_prod Some Some \<circ> (\<lambda>k. (vs ! k, vs ! ((k + 1) mod length vs)))) k"
      by (simp only: at comp_def map_prod_simp)
  qed
  with inv2 have "lastKeyed (K @ map (map_prod Some Some) (dedges vs)) (m2, t2)" by simp
  with l2 have "lastKeyed (K @ map (map_prod Some Some) (dedges vs)) (m3, t2)"
    by (rule foldM_invariant [where I = "\<lambda>x. lastKeyed (K @ map (map_prod Some Some) (dedges vs))
      (x, t2)"]) (rule linkFaceEdge_keyed)
  with res show ?thesis by simp
qed

lemma addFaces_keyed:
  "foldM addFace fs st = Ok st' \<Longrightarrow> lastKeyed K st \<Longrightarrow>
   lastKeyed (K @ map (map_prod Some Some) (soupEdges fs)) st'"
proof (induction fs arbitrary: st K)
  case Nil
  then show ?case by (simp add: soupEdges_def)
next
  case (Cons vs fs)
  from Cons.prems(1) obtain s1 where
    one: "addFace vs st = Ok s1" and rest: "foldM addFace fs s1 = Ok st'"
    by (auto simp: rbind_Ok)
  from Cons.IH [OF rest addFace_keyed [OF one Cons.prems(2)]] show ?case
    by (simp add: soupEdges_def)
qed

lemma addVertices_fold_ids:
  "\<forall>i < length vs. vID (vs ! i) = Some i \<Longrightarrow>
   \<forall>i < length (fold (\<lambda>(p, c) vs. vs @ [(newHVertex p c)\<lparr>vID := Some (length vs)\<rparr>]) pcs vs).
     vID (fold (\<lambda>(p, c) vs. vs @ [(newHVertex p c)\<lparr>vID := Some (length vs)\<rparr>]) pcs vs ! i) = Some i"
proof (induction pcs arbitrary: vs)
  case Nil
  then show ?case by simp
next
  case (Cons pc pcs)
  obtain p c where pc: "pc = (p, c)" by (cases pc)
  have "\<forall>i < length (vs @ [(newHVertex p c)\<lparr>vID := Some (length vs)\<rparr>]).
      vID ((vs @ [(newHVertex p c)\<lparr>vID := Some (length vs)\<rparr>]) ! i) = Some i"
    using Cons.prems by (auto simp: nth_append less_Suc_eq)
  from Cons.IH [OF this] show ?case by (simp add: pc)
qed

lemma addVertices_ids: "i < length (addVertices pcs) \<Longrightarrow> vID (addVertices pcs ! i) = Some i"
  using addVertices_fold_ids [of "[]" pcs] by (simp add: addVertices_def)

lemma pairEdge_other:
  assumes "h \<notin> snd ` set t" and "entry \<in> set t" and "h < length (edges (fst st))"
  shows "h < length (edges (fst (pairEdge t entry st))) \<and>
    pair (edges (fst (pairEdge t entry st)) ! h) = pair (edges (fst st) ! h) \<and>
    face (edges (fst (pairEdge t entry st)) ! h) = face (edges (fst st) ! h)"
proof -
  obtain a b h1 m be where en: "entry = ((a, b), h1)" and st: "st = (m, be)"
    by (cases entry; cases st) auto
  from assms(1,2) en have "h1 \<noteq> h" by force
  with assms(3) st show ?thesis
    by (auto simp: en pairEdge_def Let_def nth_append split: option.splits)
qed


lemma duplicate_keeps_null_pair:
  assumes run: "loadFileFromLines pcs fs = Ok m" and lt: "e1 < e2"
    and e2: "e2 < length (soupEdges fs)" and dup: "soupEdges fs ! e1 = soupEdges fs ! e2"
  shows "e1 < length (edges m) \<and> face (edges m ! e1) \<noteq> None \<and> pair (edges m ! e1) = None"
proof -
  let ?m0 = "\<lparr>vertices = addVertices pcs, edges = [], faces = [], needsDisplayUpdate = False\<rparr>"
  let ?K = "map (map_prod Some Some) (soupEdges fs)"
  from loadFileFromLines_steps [OF run] obtain m1 t m2 be m3 where
    s3: "foldM addFace fs (?m0, []) = Ok (m1, t)" and
    s4: "fold (pairEdge t) t (m1, []) = (m2, be)" and
    s5: "foldM (linkBoundary be) (keyOrder be) m2 = Ok m3" and
    s6: "m = numberAll m3"
    by blast
  have "lastKeyed [] (?m0, ([] :: (edgeKey \<times> nat) list))"
    by (simp add: lastKeyed_def addVertices_ids)
  from addFaces_keyed [OF s3 this] have inv: "lastKeyed ?K (m1, t)" by simp
  then have len: "length (edges m1) = length (soupEdges fs)" and
    pn: "\<forall>e < length (soupEdges fs). pair (edges m1 ! e) = None" and
    ent: "\<forall>(k, e) \<in> set t. e < length ?K \<and> ?K ! e = k \<and>
           (\<forall>e'. e < e' \<and> e' < length ?K \<longrightarrow> ?K ! e' \<noteq> k)"
    by (simp_all add: lastKeyed_def)
  from lt e2 have e1: "e1 < length (soupEdges fs)" by simp
  have notin: "e1 \<notin> snd ` set t"
  proof
    assume "e1 \<in> snd ` set t"
    then obtain k where "(k, e1) \<in> set t" by auto
    with ent have "?K ! e1 = k" and "\<forall>e'. e1 < e' \<and> e' < length ?K \<longrightarrow> ?K ! e' \<noteq> k"
      by auto
    with lt e2 have "?K ! e2 \<noteq> ?K ! e1" by simp
    with e1 e2 dup show False by simp
  qed
  have "facedState (?m0, ([] :: (edgeKey \<times> nat) list))"
    by (simp add: facedState_def allFaced_def tableInside_def)
  with s3 have "facedState (m1, t)" by (rule foldM_invariant) (rule addFace_faced)
  with e1 len have f1: "face (edges m1 ! e1) \<noteq> None" by (simp add: facedState_def allFaced_def)
  let ?I = "\<lambda>st. e1 < length (edges (fst st)) \<and> pair (edges (fst st) ! e1) = None \<and>
      face (edges (fst st) ! e1) \<noteq> None"
  have "?I (m1, ([] :: (nat option \<times> nat) list))" using e1 len pn f1 by simp
  then have "?I (fold (pairEdge t) t (m1, []))"
    by (rule fold_invariant) (use pairEdge_other [OF notin] in auto)
  with s4 have i2: "e1 < length (edges m2) \<and> pair (edges m2 ! e1) = None \<and>
      face (edges m2 ! e1) \<noteq> None" by simp
  from s5 i2 have i3: "e1 < length (edges m3) \<and> pair (edges m3 ! e1) = None \<and>
      face (edges m3 ! e1) \<noteq> None"
    by (rule foldM_invariant) (use linkBoundary_fields in auto)
  with s6 show ?thesis by (simp add: numberAll_def nth_enumerate_eq)
qed

lemma duplicate_edge_TypeError:
  "loadFileFromLines fourPoints [[0, 1, 2], [0, 1, 3], [1, 0, 2]] = Err TypeError"
  by (simp add: fourPoints_def load_defs deref_defs Let_def upt_rec)


text \<open>
  C3, amended: a duplicated directed edge raises nothing of its own, since the construction
  has no check for it. Whenever \<open>loadFileFromLines\<close> returns a mesh and the faces list the
  directed edge at the place \<open>e1\<close> again at a later place \<open>e2\<close>, the half-edge \<open>e1\<close> of the
  mesh, which has a face, has no pair: the later half-edge has taken its place in the table
  of half-edges, so the mesh is partially linked.
\<close>

theorem duplicate_edge_overwrites:
  assumes "loadFileFromLines pcs fs = Ok m" and "e1 < e2"
    and "e2 < length (soupEdges fs)" and "soupEdges fs ! e1 = soupEdges fs ! e2"
  shows "e1 < length (edges m) \<and> face (edges m ! e1) \<noteq> None \<and> pair (edges m ! e1) = None"
  using assms by (rule duplicate_keeps_null_pair)

theorem duplicate_edge_overwrites_witness:
  "\<exists>m. loadFileFromLines fourPoints [[0, 1, 2], [0, 1, 3]] = Ok m \<and>
     (0::nat) < 3 \<and> 3 < length (soupEdges [[0, 1, 2], [0, 1, 3]]) \<and>
     soupEdges [[0, 1, 2], [0, 1, 3]] ! 0 = soupEdges [[0, 1, 2], [0, 1, 3]] ! 3 \<and>
     0 < length (edges m) \<and> face (edges m ! 0) \<noteq> None \<and> pair (edges m ! 0) = None"
proof -
  from load_duplicate [of "fromValues 0 0 0" gray "fromValues 1 0 0" gray "fromValues 0 1 0" gray
      "fromValues 0 0 1" gray]
  obtain m where run: "loadFileFromLines fourPoints [[0, 1, 2], [0, 1, 3]] = Ok m"
    unfolding fourPoints_def
    by (cases "loadFileFromLines [(fromValues 0 0 0, gray), (fromValues 1 0 0, gray),
        (fromValues 0 1 0, gray), (fromValues 0 0 1, gray)] [[0, 1, 2], [0, 1, 3]]") auto
  have s: "soupEdges [[0, 1, 2], [0, 1, 3]] = [(0, 1), (1, 2), (2, 0), (0, 1), (1, 3), (3, 0)]"
    by (simp add: soupEdges_def dedges_def upt_rec)
  have "(0::nat) < 3" "3 < length (soupEdges [[0, 1, 2], [0, 1, 3]])"
    "soupEdges [[0, 1, 2], [0, 1, 3]] ! 0 = soupEdges [[0, 1, 2], [0, 1, 3]] ! 3"
    unfolding s by simp_all
  with duplicate_edge_overwrites [OF run this] run show ?thesis by blast
qed


section \<open>Step 3 on a well-formed polygon soup\<close>

lemma tableOf_keys:
  "fst ` set (tableOf D) = (\<lambda>d. (Some (fst d), Some (snd d))) ` set D"
proof -
  have "fst ` set (tableOf D) = (\<lambda>e. (Some (fst (D ! e)), Some (snd (D ! e)))) ` {0..<length D}"
    by (simp add: tableOf_def image_image)
  also have "\<dots> = (\<lambda>d. (Some (fst d), Some (snd d))) ` ((!) D ` {0..<length D})"
    by (simp only: image_image)
  also have "(!) D ` {0..<length D} = set D"
    using nth_image [of "length D" D] by simp
  finally show ?thesis .
qed


lemma tableOf_append:
  "tableOf (D @ D') = tableOf D @
     map (\<lambda>k. ((Some (fst (D' ! k)), Some (snd (D' ! k))), length D + k)) [0..<length D']"
proof -
  let ?f = "\<lambda>e. ((Some (fst ((D @ D') ! e)), Some (snd ((D @ D') ! e))), e)"
  have split: "[0..<length D + length D'] =
      [0..<length D] @ map (\<lambda>k. length D + k) [0..<length D']"
  proof -
    have "map (\<lambda>k. length D + k) [0..<length D'] = [length D..<length D + length D']"
      by (rule nth_equalityI) simp_all
    then show ?thesis by (simp only: upt_add_eq_append [OF le0])
  qed
  have 1: "map ?f [0..<length D] = tableOf D"
    unfolding tableOf_def by (rule map_cong [OF refl]) (simp add: nth_append)
  have 2: "map ?f (map (\<lambda>k. length D + k) [0..<length D']) =
      map (\<lambda>k. ((Some (fst (D' ! k)), Some (snd (D' ! k))), length D + k)) [0..<length D']"
    unfolding map_map by (rule map_cong [OF refl]) simp
  have "tableOf (D @ D') = map ?f [0..<length D + length D']"
    by (simp only: tableOf_def length_append)
  also have "\<dots> = map ?f [0..<length D] @ map ?f (map (\<lambda>k. length D + k) [0..<length D'])"
    by (simp only: split map_append)
  finally show ?thesis by (simp only: 1 2)
qed


lemma interiorOK_old:
  assumes "interiorOK m D e" and "e < length D"
    and "\<forall>x < length D. edges m' ! x = edges m ! x"
    and "length (vertices m') = length (vertices m)"
  shows "interiorOK m' (D @ D') e"
proof -
  from assms(1) obtain n r where
    n: "nxt (edges m ! e) = Some n" "n < length D" "prev (edges m ! n) = Some e" and
    r: "prev (edges m ! e) = Some r" "r < length D" "nxt (edges m ! r) = Some e"
    by (auto simp: interiorOK_def split: option.splits)
  from assms(1) have rest: "fst (D ! e) < length (vertices m)" "snd (D ! e) < length (vertices m)"
    "head (edges m ! e) = Some (snd (D ! e))" "pair (edges m ! e) = None"
    "face (edges m ! e) \<noteq> None"
    by (simp_all add: interiorOK_def)
  from assms(2,3) n r have "edges m' ! e = edges m ! e" "edges m' ! n = edges m ! n"
    "edges m' ! r = edges m ! r" by simp_all
  with n r rest assms(2,4) show ?thesis
    by (simp add: interiorOK_def nth_append)
qed

lemma dedges_fresh:
  assumes "set (dedges vs) \<inter> set D = {}" and "k < length vs"
  shows "(Some (fst (dedges vs ! k)), Some (snd (dedges vs ! k))) \<notin> fst ` set (tableOf D)"
proof
  assume "(Some (fst (dedges vs ! k)), Some (snd (dedges vs ! k))) \<in> fst ` set (tableOf D)"
  then obtain d where d: "d \<in> set D" and
    "(Some (fst (dedges vs ! k)), Some (snd (dedges vs ! k))) = (Some (fst d), Some (snd d))"
    unfolding tableOf_keys by blast
  then have "dedges vs ! k = d" by (simp add: prod_eq_iff)
  moreover from assms(2) have "dedges vs ! k \<in> set (dedges vs)" by simp
  ultimately show False using assms(1) d by blast
qed

lemma addFace_built:
  assumes inv: "built D (m, t)" and d: "distinct vs"
    and r: "\<forall>v\<in>set vs. v < length (vertices m)" and fresh: "set (dedges vs) \<inter> set D = {}"
  shows "\<exists>m' t'. addFace vs (m, t) = Ok (m', t') \<and> built (D @ dedges vs) (m', t') \<and>
    length (vertices m') = length (vertices m)"
proof -
  let ?m1 = "m\<lparr>faces := faces m @ [newHFace]\<rparr>"
  let ?f = "length (faces m)"
  let ?n = "length vs"
  let ?b = "length D"
  from inv have len: "length (edges m) = ?b" and t: "t = tableOf D"
    and ids: "\<forall>i < length (vertices m). vID (vertices m ! i) = Some i"
    and old: "\<forall>e < ?b. interiorOK m D e"
    by (simp_all add: built_def)
  have vertsi: "map (\<lambda>i. vertexAt ?m1 (Some i)) vs = map Some vs"
    using r by (intro map_cong refl) (simp add: vertexAt_def)
  have r1: "\<forall>v\<in>set vs. v < length (vertices ?m1)" using r by simp
  have ids1: "\<forall>i < length (vertices ?m1). vID (vertices ?m1 ! i) = Some i" using ids by simp
  have fresh1: "\<forall>k < length vs.
      (Some (fst (dedges vs ! k)), Some (snd (dedges vs ! k))) \<notin> fst ` set t"
    unfolding t using dedges_fresh [OF fresh] by blast
  from addFaceEdge_loop [OF d r1 ids1 fresh1 le_refl, of ?f] obtain m2 t2 where
    l1: "foldM (addFaceEdge (map Some vs) ?f) [0..<?n] (?m1, t) = Ok (m2, t2)" and
    ad: "added ?m1 t vs ?f ?n (m2, t2)" by (metis surj_pair)
  from ad len have
    e2: "edges m2 = edges m @
      map (\<lambda>k. newHEdge\<lparr>head := Some (snd (dedges vs ! k)), face := Some ?f\<rparr>) [0..<?n]" and
    t2: "t2 = t @ map (\<lambda>k. ((Some (fst (dedges vs ! k)), Some (snd (dedges vs ! k))), ?b + k))
      [0..<?n]" and
    lv2: "length (vertices m2) = length (vertices m)" and
    ids2: "\<forall>i < length (vertices m). vID (vertices m2 ! i) = vID (vertices m ! i)" and
    vh2: "\<forall>k < ?n. vh (vertices m2 ! (vs ! k)) = Some (?b + k)"
    by (simp_all add: added_def)
  from e2 len have le2: "length (edges m2) = ?b + ?n" by simp
  from r lv2 have r2: "\<forall>v\<in>set vs. v < length (vertices m2)" by simp
  from linkFaceEdge_loop [OF r2 le2 vh2 le_refl] obtain m3 where
    l2: "foldM (linkFaceEdge (map Some vs)) [0..<?n] m2 = Ok m3" and
    ch: "chained m2 ?b ?n ?n m3" by blast
  have run: "addFace vs (m, t) = Ok (m3, t2)"
    using l1 l2 by (simp add: addFace_def Let_def vertsi)
  from ch have v3: "vertices m3 = vertices m2" and le3: "length (edges m3) = ?b + ?n"
    and same3: "\<forall>e < ?b + ?n. head (edges m3 ! e) = head (edges m2 ! e) \<and>
        face (edges m3 ! e) = face (edges m2 ! e) \<and> pair (edges m3 ! e) = pair (edges m2 ! e)"
    and low3: "\<forall>e < ?b. edges m3 ! e = edges m2 ! e"
    and nx3: "\<forall>k < ?n. nxt (edges m3 ! (?b + k)) = Some (?b + (k + 1) mod ?n)"
    and pv3: "\<forall>k < ?n. prev (edges m3 ! (?b + k)) =
        (if \<exists>i<?n. (i + 1) mod ?n = k then Some (?b + (k + ?n - 1) mod ?n)
         else prev (edges m2 ! (?b + k)))"
    by (simp_all add: chained_def le2)
  have low: "\<forall>e < ?b. edges m3 ! e = edges m ! e"
    using low3 e2 len by (simp add: nth_append)
  have new2: "edges m2 ! (?b + k) =
      newHEdge\<lparr>head := Some (snd (dedges vs ! k)), face := Some ?f\<rparr>" if "k < ?n" for k
    using that len by (simp add: e2 nth_append)
  have pv3': "prev (edges m3 ! (?b + k)) = Some (?b + (k + ?n - 1) mod ?n)" if "k < ?n" for k
  proof -
    from that have "(k + ?n - 1) mod ?n < ?n" by (rule pred_mod_less)
    moreover from that have "((k + ?n - 1) mod ?n + 1) mod ?n = k" by (rule succ_pred_mod)
    ultimately have "\<exists>i<?n. (i + 1) mod ?n = k" by blast
    with pv3 that show ?thesis by simp
  qed
  have 1: "length (edges m3) = length (D @ dedges vs)" using le3 by simp
  have 2: "t2 = tableOf (D @ dedges vs)" by (simp add: t2 t tableOf_append)
  have 3: "\<forall>i < length (vertices m3). vID (vertices m3 ! i) = Some i"
    using ids ids2 lv2 v3 by simp
  have 4: "interiorOK m3 (D @ dedges vs) e" if e: "e < length (D @ dedges vs)" for e
  proof (cases "e < ?b")
    case True
    with old have "interiorOK m D e" by simp
    then show ?thesis using True low
      by (rule interiorOK_old) (simp add: v3 lv2)
  next
    case False
    with e obtain k where k: "e = ?b + k" "k < ?n"
      by (auto simp: le_iff_add not_less)
    let ?s = "(k + 1) mod ?n" and ?p = "(k + ?n - 1) mod ?n"
    from k(2) have s: "?s < ?n" by (rule succ_mod_less)
    from k(2) have p: "?p < ?n" by (rule pred_mod_less)
    have De: "(D @ dedges vs) ! e = (vs ! k, vs ! ?s)"
      using k by (simp add: nth_append dedges_nth)
    have "vs ! k \<in> set vs" "vs ! ?s \<in> set vs" using k(2) s by simp_all
    with r have rng: "vs ! k < length (vertices m3)" "vs ! ?s < length (vertices m3)"
      by (simp_all add: v3 lv2)
    from same3 k new2 [OF k(2)] have
      hd: "head (edges m3 ! e) = Some (vs ! ?s)" and
      pr: "pair (edges m3 ! e) = None" and
      fc: "face (edges m3 ! e) \<noteq> None"
      by (simp_all add: newHEdge_def dedges_nth)
    have nx: "nxt (edges m3 ! e) = Some (?b + ?s)" using nx3 k by simp
    have pn: "prev (edges m3 ! (?b + ?s)) = Some e"
      using pv3' [OF s] pred_succ_mod [OF k(2)] k(1) by simp
    have pv: "prev (edges m3 ! e) = Some (?b + ?p)" using pv3' [OF k(2)] k(1) by simp
    have np: "nxt (edges m3 ! (?b + ?p)) = Some e"
      using nx3 p succ_pred_mod [OF k(2)] k(1) by simp
    show ?thesis
      unfolding interiorOK_def De fst_conv snd_conv nx pv option.case
      using rng hd pr fc pn np s p by simp
  qed
  from 1 2 3 4 have "built (D @ dedges vs) (m3, t2)"
    unfolding built_def prod.case by blast
  with run v3 lv2 show ?thesis by simp
qed


lemma soupEdges_Cons: "soupEdges (vs # fs) = dedges vs @ soupEdges fs"
  by (simp add: soupEdges_def)

lemma addFaces_built:
  "built D (m, t) \<Longrightarrow>
   \<forall>vs\<in>set fs. distinct vs \<and> (\<forall>v\<in>set vs. v < length (vertices m)) \<Longrightarrow>
   distinct (D @ soupEdges fs) \<Longrightarrow>
   \<exists>m' t'. foldM addFace fs (m, t) = Ok (m', t') \<and> built (D @ soupEdges fs) (m', t') \<and>
     length (vertices m') = length (vertices m)"
proof (induction fs arbitrary: D m t)
  case Nil
  then show ?case by (simp add: soupEdges_def)
next
  case (Cons vs fs)
  from Cons.prems(2) have d: "distinct vs" and r: "\<forall>v\<in>set vs. v < length (vertices m)"
    by simp_all
  from Cons.prems(3) have fresh: "set (dedges vs) \<inter> set D = {}"
    and dist: "distinct ((D @ dedges vs) @ soupEdges fs)"
    by (auto simp: soupEdges_Cons)
  from addFace_built [OF Cons.prems(1) d r fresh] obtain m1 t1 where
    one: "addFace vs (m, t) = Ok (m1, t1)" and b1: "built (D @ dedges vs) (m1, t1)" and
    lv: "length (vertices m1) = length (vertices m)" by blast
  from Cons.prems(2) lv have
    "\<forall>vs\<in>set fs. distinct vs \<and> (\<forall>v\<in>set vs. v < length (vertices m1))" by simp
  from Cons.IH [OF b1 this dist] obtain m' t' where
    "foldM addFace fs (m1, t1) = Ok (m', t')"
    "built ((D @ dedges vs) @ soupEdges fs) (m', t')"
    "length (vertices m') = length (vertices m1)" by blast
  with one lv show ?case by (simp add: soupEdges_Cons)
qed


section \<open>Step 4 on a well-formed polygon soup\<close>

lemma map_fst_tableOf: "map fst (tableOf D) = map (\<lambda>d. (Some (fst d), Some (snd d))) D"
  by (rule nth_equalityI) (simp_all add: tableOf_def)

lemma distinct_tableOf: "distinct D \<Longrightarrow> distinct (map fst (tableOf D))"
  unfolding map_fst_tableOf by (simp add: distinct_map inj_on_def prod_eq_iff)

lemma map_of_tableOf_Some:
  assumes "distinct D" and "p < length D"
  shows "map_of (tableOf D) (Some (fst (D ! p)), Some (snd (D ! p))) = Some p"
proof -
  from assms(2) have "((Some (fst (D ! p)), Some (snd (D ! p))), p) \<in> set (tableOf D)"
    by (simp add: tableOf_def image_iff) 
  with distinct_tableOf [OF assms(1)] show ?thesis by simp
qed

lemma map_of_tableOf_None:
  assumes "(a, b) \<notin> set D"
  shows "map_of (tableOf D) (Some a, Some b) = None"
proof -
  have "(Some a, Some b) \<notin> fst ` set (tableOf D)"
    unfolding tableOf_keys using assms by (auto simp: prod_eq_iff)
  then show ?thesis by (simp add: map_of_eq_None_iff)
qed

lemma tableOf_nth: "j < length D \<Longrightarrow> tableOf D ! j = ((Some (fst (D ! j)), Some (snd (D ! j))), j)"
  by (simp add: tableOf_def)

lemma length_tableOf [simp]: "length (tableOf D) = length D"
  by (simp add: tableOf_def)


lemma paired4_I:
  assumes "vertices m = vertices m1" and "faces m = faces m1" and "length D \<le> length (edges m)"
    and "distinct (map fst be)"
    and "\<And>e. e < length D \<Longrightarrow>
           head (edges m ! e) = head (edges m1 ! e) \<and> face (edges m ! e) = face (edges m1 ! e) \<and>
           nxt (edges m ! e) = nxt (edges m1 ! e) \<and> prev (edges m ! e) = prev (edges m1 ! e)"
    and "\<And>e. e < length D \<Longrightarrow> pairOK D j m be e"
    and "\<And>h. length D \<le> h \<Longrightarrow> h < length (edges m) \<Longrightarrow>
           \<exists>e < j. unp D e \<and> pair (edges m ! e) = Some h"
    and "\<And>k h. (k, h) \<in> set be \<Longrightarrow>
           \<exists>e < j. unp D e \<and> k = Some (snd (D ! e)) \<and> pair (edges m ! e) = Some h"
  shows "paired4 D m1 j (m, be)"
  unfolding paired4_def prod.case using assms by (intro conjI allI impI ballI) auto

lemma pairEdge_step4:
  assumes dD: "distinct D"
    and hd: "\<And>e e'. e < length D \<Longrightarrow> e' < length D \<Longrightarrow> unp D e \<Longrightarrow> unp D e' \<Longrightarrow>
              snd (D ! e) = snd (D ! e') \<Longrightarrow> e = e'"
    and rng: "\<forall>e < length D. fst (D ! e) < length (vertices m1)"
    and j: "j < length D" and inv: "paired4 D m1 j (m, be)"
  shows "paired4 D m1 (Suc j) (pairEdge (tableOf D) (tableOf D ! j) (m, be))"
proof -
  let ?M = "length D"
  obtain a b where ab: "D ! j = (a, b)" by (cases "D ! j")
  have entry: "tableOf D ! j = ((Some a, Some b), j)" using j ab by (simp add: tableOf_nth)
  from inv have vs: "vertices m = vertices m1" and fs: "faces m = faces m1"
    and le: "?M \<le> length (edges m)" and dbe: "distinct (map fst be)"
    and same: "\<And>e. e < ?M \<Longrightarrow>
           head (edges m ! e) = head (edges m1 ! e) \<and> face (edges m ! e) = face (edges m1 ! e) \<and>
           nxt (edges m ! e) = nxt (edges m1 ! e) \<and> prev (edges m ! e) = prev (edges m1 ! e)"
    and pok: "\<And>e. e < ?M \<Longrightarrow> pairOK D j m be e"
    and cov: "\<And>h. ?M \<le> h \<Longrightarrow> h < length (edges m) \<Longrightarrow>
           \<exists>e < j. unp D e \<and> pair (edges m ! e) = Some h"
    and ent: "\<And>k h. (k, h) \<in> set be \<Longrightarrow>
           \<exists>e < j. unp D e \<and> k = Some (snd (D ! e)) \<and> pair (edges m ! e) = Some h"
    unfolding paired4_def prod.case by blast+
  from j le have jl: "j < length (edges m)" by simp
  show ?thesis
  proof (cases "unp D j")
    case True
    then have "(b, a) \<notin> set D" by (simp add: unp_def ab)
    then have look: "map_of (tableOf D) (Some b, Some a) = None" by (rule map_of_tableOf_None)
    let ?h2 = "length (edges m)"
    let ?es = "(edges m)[j := (edges m ! j)\<lparr>pair := Some ?h2\<rparr>] @
        [newHEdge\<lparr>pair := Some j, head := Some a\<rparr>]"
    let ?m' = "m\<lparr>edges := ?es\<rparr>"
    let ?be' = "AList.update (Some b) ?h2 be"
    from rng j ab vs have "a < length (vertices m)" by fastforce
    then have res: "pairEdge (tableOf D) (tableOf D ! j) (m, be) = (?m', ?be')"
      by (simp add: entry pairEdge_def look Let_def vertexAt_def)
    have oth: "edges ?m' ! x = edges m ! x" if "x < length (edges m)" "x \<noteq> j" for x
      using that by (simp add: nth_append)
    have atj: "edges ?m' ! j = (edges m ! j)\<lparr>pair := Some ?h2\<rparr>"
      using jl by (simp add: nth_append)
    have new: "edges ?m' ! ?h2 = newHEdge\<lparr>pair := Some j, head := Some a\<rparr>"
      by (simp add: nth_append)
    have "paired4 D m1 (Suc j) (?m', ?be')"
    proof (rule paired4_I)
      show "vertices ?m' = vertices m1" "faces ?m' = faces m1" "?M \<le> length (edges ?m')"
        using vs fs le by simp_all
      show "distinct (map fst ?be')" using dbe by (rule AList.distinct_update)
    next
      fix e assume e: "e < ?M"
      with le have el: "e < length (edges m)" by simp
      show "head (edges ?m' ! e) = head (edges m1 ! e) \<and>
          face (edges ?m' ! e) = face (edges m1 ! e) \<and>
          nxt (edges ?m' ! e) = nxt (edges m1 ! e) \<and> prev (edges ?m' ! e) = prev (edges m1 ! e)"
        using same [OF e] oth [OF el] atj by (cases "e = j") simp_all
    next
      fix e assume e: "e < ?M"
      with le have el: "e < length (edges m)" by simp
      consider "Suc j \<le> e" | "e = j" | "e < j" by linarith
      then show "pairOK D (Suc j) ?m' ?be' e"
      proof cases
        case 1
        with pok [OF e] have "pair (edges m ! e) = None" by (simp add: pairOK_def)
        with 1 oth [OF el] show ?thesis by (simp add: pairOK_def)
      next
        case 2
        have "?M \<le> ?h2 \<and> ?h2 < length (edges ?m') \<and> pair (edges ?m' ! j) = Some ?h2 \<and>
            map_of ?be' (Some (snd (D ! j))) = Some ?h2 \<and>
            edges ?m' ! ?h2 = newHEdge\<lparr>pair := Some j, head := Some (fst (D ! j))\<rparr>"
          using le atj new by (simp add: ab update_conv' del: nth_append_length)
        with 2 True show ?thesis unfolding pairOK_def by auto
      next
        case 3
        show ?thesis
        proof (cases "unp D e")
          case ue: True
          with 3 pok [OF e] obtain h where
            h: "?M \<le> h" "h < length (edges m)" "pair (edges m ! e) = Some h"
              "map_of be (Some (snd (D ! e))) = Some h"
              "edges m ! h = newHEdge\<lparr>pair := Some e, head := Some (fst (D ! e))\<rparr>"
            by (auto simp: pairOK_def)
          from 3 hd [OF e j ue True] have "snd (D ! e) \<noteq> b" by (auto simp: ab)
          then have "map_of ?be' (Some (snd (D ! e))) = Some h"
            using h(4) by (simp add: update_conv')
          moreover from h(1) j have "h \<noteq> j" by simp
          ultimately have "?M \<le> h \<and> h < length (edges ?m') \<and> pair (edges ?m' ! e) = Some h \<and>
              map_of ?be' (Some (snd (D ! e))) = Some h \<and>
              edges ?m' ! h = newHEdge\<lparr>pair := Some e, head := Some (fst (D ! e))\<rparr>"
            using h 3 oth [OF el] oth [OF h(2)] by simp
          with 3 ue show ?thesis unfolding pairOK_def by auto
        next
          case False
          with 3 pok [OF e] obtain p where
            "p < ?M" "D ! p = prod.swap (D ! e)" "pair (edges m ! e) = Some p"
            by (auto simp: pairOK_def)
          with 3 False oth [OF el] show ?thesis unfolding pairOK_def by auto
        qed
      qed
    next
      fix h assume h: "?M \<le> h" "h < length (edges ?m')"
      show "\<exists>e < Suc j. unp D e \<and> pair (edges ?m' ! e) = Some h"
      proof (cases "h = ?h2")
        case True
        with \<open>unp D j\<close> atj show ?thesis by auto
      next
        case False
        with h have hl: "h < length (edges m)" by simp
        from cov [OF h(1) hl] obtain e where e: "e < j" "unp D e" "pair (edges m ! e) = Some h"
          by blast
        with jl have "edges ?m' ! e = edges m ! e" by (intro oth) simp_all
        with e show ?thesis by (auto simp: less_Suc_eq)
      qed
    next
      fix k h assume "(k, h) \<in> set ?be'"
      with set_AList_update [of "Some b" ?h2 be] have
        c: "(k, h) = (Some b, ?h2) \<or> (k, h) \<in> set be" by auto
      show "\<exists>e < Suc j. unp D e \<and> k = Some (snd (D ! e)) \<and> pair (edges ?m' ! e) = Some h"
        using c
      proof
        assume "(k, h) = (Some b, ?h2)"
        with \<open>unp D j\<close> atj ab show ?thesis by auto
      next
        assume "(k, h) \<in> set be"
        from ent [OF this] obtain e where e: "e < j" "unp D e" "k = Some (snd (D ! e))"
          "pair (edges m ! e) = Some h" by blast
        with jl have "edges ?m' ! e = edges m ! e" by (intro oth) simp_all
        with e show ?thesis by (auto simp: less_Suc_eq)
      qed
    qed
    with res show ?thesis by simp
  next
    case False
    then have "(b, a) \<in> set D" by (simp add: unp_def ab)
    then obtain p where p: "p < ?M" "D ! p = (b, a)" by (auto simp: in_set_conv_nth)
    from map_of_tableOf_Some [OF dD p(1)] p(2) have
      look: "map_of (tableOf D) (Some b, Some a) = Some p" by simp
    let ?m' = "m\<lparr>edges := (edges m)[j := (edges m ! j)\<lparr>pair := Some p\<rparr>]\<rparr>"
    have res: "pairEdge (tableOf D) (tableOf D ! j) (m, be) = (?m', be)"
      by (simp add: entry pairEdge_def look)
    have oth: "edges ?m' ! x = edges m ! x" if "x \<noteq> j" for x
      using that by simp
    have atj: "edges ?m' ! j = (edges m ! j)\<lparr>pair := Some p\<rparr>"
      using jl by simp
    have "paired4 D m1 (Suc j) (?m', be)"
    proof (rule paired4_I)
      show "vertices ?m' = vertices m1" "faces ?m' = faces m1" "?M \<le> length (edges ?m')"
        using vs fs le by simp_all
      show "distinct (map fst be)" by (rule dbe)
    next
      fix e assume e: "e < ?M"
      show "head (edges ?m' ! e) = head (edges m1 ! e) \<and>
          face (edges ?m' ! e) = face (edges m1 ! e) \<and>
          nxt (edges ?m' ! e) = nxt (edges m1 ! e) \<and> prev (edges ?m' ! e) = prev (edges m1 ! e)"
        using same [OF e] oth [of e] atj by (cases "e = j") simp_all
    next
      fix e assume e: "e < ?M"
      consider "Suc j \<le> e" | "e = j" | "e < j" by linarith
      then show "pairOK D (Suc j) ?m' be e"
      proof cases
        case 1
        with pok [OF e] have "pair (edges m ! e) = None" by (simp add: pairOK_def)
        with 1 oth [of e] show ?thesis by (simp add: pairOK_def)
      next
        case 2
        have "p < ?M \<and> D ! p = prod.swap (D ! j) \<and> pair (edges ?m' ! j) = Some p"
          using p atj by (simp add: ab)
        with 2 False show ?thesis unfolding pairOK_def by auto
      next
        case 3
        show ?thesis
        proof (cases "unp D e")
          case ue: True
          with 3 pok [OF e] obtain h where
            h: "?M \<le> h" "h < length (edges m)" "pair (edges m ! e) = Some h"
              "map_of be (Some (snd (D ! e))) = Some h"
              "edges m ! h = newHEdge\<lparr>pair := Some e, head := Some (fst (D ! e))\<rparr>"
            by (auto simp: pairOK_def)
          from h(1) j have "h \<noteq> j" by simp
          then have "?M \<le> h \<and> h < length (edges ?m') \<and> pair (edges ?m' ! e) = Some h \<and>
              map_of be (Some (snd (D ! e))) = Some h \<and>
              edges ?m' ! h = newHEdge\<lparr>pair := Some e, head := Some (fst (D ! e))\<rparr>"
            using h 3 oth [of e] oth [of h] by simp
          with 3 ue show ?thesis unfolding pairOK_def by auto
        next
          case nu: False
          with 3 pok [OF e] obtain q where
            "q < ?M" "D ! q = prod.swap (D ! e)" "pair (edges m ! e) = Some q"
            by (auto simp: pairOK_def)
          with 3 nu oth [of e] show ?thesis unfolding pairOK_def by auto
        qed
      qed
    next
      fix h assume h: "?M \<le> h" "h < length (edges ?m')"
      then have hl: "h < length (edges m)" by simp
      from cov [OF h(1) hl] obtain e where e: "e < j" "unp D e" "pair (edges m ! e) = Some h"
        by blast
      then have "edges ?m' ! e = edges m ! e" by (intro oth) simp
      with e show "\<exists>e < Suc j. unp D e \<and> pair (edges ?m' ! e) = Some h"
        by (auto simp: less_Suc_eq)
    next
      fix k h assume "(k, h) \<in> set be"
      from ent [OF this] obtain e where e: "e < j" "unp D e" "k = Some (snd (D ! e))"
        "pair (edges m ! e) = Some h" by blast
      then have "edges ?m' ! e = edges m ! e" by (intro oth) simp
      with e show "\<exists>e < Suc j. unp D e \<and> k = Some (snd (D ! e)) \<and>
          pair (edges ?m' ! e) = Some h"
        by (auto simp: less_Suc_eq)
    qed
    with res show ?thesis by simp
  qed
qed


lemma pairEdges_all:
  assumes dD: "distinct D"
    and hd: "\<And>e e'. e < length D \<Longrightarrow> e' < length D \<Longrightarrow> unp D e \<Longrightarrow> unp D e' \<Longrightarrow>
              snd (D ! e) = snd (D ! e') \<Longrightarrow> e = e'"
    and b: "built D (m1, t)"
  shows "paired4 D m1 (length D) (fold (pairEdge (tableOf D)) (tableOf D) (m1, []))"
proof -
  from b have len: "length (edges m1) = length D" and ok: "\<forall>e < length D. interiorOK m1 D e"
    by (simp_all add: built_def)
  from ok have rng: "\<forall>e < length D. fst (D ! e) < length (vertices m1)"
    and pn: "\<forall>e < length D. pair (edges m1 ! e) = None"
    by (simp_all add: interiorOK_def)
  have "j \<le> length D \<Longrightarrow>
      paired4 D m1 j (fold (pairEdge (tableOf D)) (take j (tableOf D)) (m1, []))" for j
  proof (induction j)
    case 0
    have "paired4 D m1 0 (m1, [])"
    proof (rule paired4_I)
      show "vertices m1 = vertices m1" "faces m1 = faces m1" "length D \<le> length (edges m1)"
        using len by simp_all
      show "distinct (map fst ([] :: (nat option \<times> nat) list))" by simp
      show "pairOK D 0 m1 [] e" if "e < length D" for e
        using that pn by (simp add: pairOK_def)
      show "\<exists>e<0. unp D e \<and> pair (edges m1 ! e) = Some h"
        if "length D \<le> h" "h < length (edges m1)" for h
        using that len by simp
      show "\<exists>e<0. unp D e \<and> k = Some (snd (D ! e)) \<and> pair (edges m1 ! e) = Some h"
        if "(k, h) \<in> set []" for k h
        using that by simp
    qed simp
    then show ?case by simp
  next
    case (Suc j)
    then have j: "j < length D" by simp
    obtain m be where st: "fold (pairEdge (tableOf D)) (take j (tableOf D)) (m1, []) = (m, be)"
      by (cases "fold (pairEdge (tableOf D)) (take j (tableOf D)) (m1, [])")
    from Suc.IH j st have inv: "paired4 D m1 j (m, be)" by simp
    have "take (Suc j) (tableOf D) = take j (tableOf D) @ [tableOf D ! j]"
      using j by (simp add: take_Suc_conv_app_nth)
    then have "fold (pairEdge (tableOf D)) (take (Suc j) (tableOf D)) (m1, []) =
        pairEdge (tableOf D) (tableOf D ! j) (m, be)"
      by (simp add: st)
    moreover have "paired4 D m1 (Suc j) (pairEdge (tableOf D) (tableOf D ! j) (m, be))"
      using dD _ rng j inv by (rule pairEdge_step4) (rule hd)
    ultimately show ?case by (simp only:)
  qed
  from this [of "length D"] show ?thesis by simp
qed


section \<open>Step 5 on a well-formed polygon soup\<close>

lemma foldM_distinct_invariant:
  assumes "distinct (ks @ xs)" and "I ks s"
    and "\<And>ks k s. k \<in> set xs \<Longrightarrow> k \<notin> set ks \<Longrightarrow> I ks s \<Longrightarrow>
           \<exists>s'. f k s = Ok s' \<and> I (ks @ [k]) s'"
  shows "\<exists>s'. foldM f xs s = Ok s' \<and> I (ks @ xs) s'"
  using assms
proof (induction xs arbitrary: ks s)
  case Nil
  then show ?case by simp
next
  case (Cons x xs)
  from Cons.prems(1) have "x \<notin> set ks" by simp
  with Cons.prems(3) [of x ks s] Cons.prems(2) obtain s1 where
    s1: "f x s = Ok s1" "I (ks @ [x]) s1" by auto
  from Cons.prems(1) have d: "distinct ((ks @ [x]) @ xs)" by simp
  have "\<exists>s'. foldM f xs s1 = Ok s' \<and> I ((ks @ [x]) @ xs) s'"
  proof (rule Cons.IH [OF d s1(2)])
    fix ks' k s'
    assume "k \<in> set xs" "k \<notin> set ks'" "I ks' s'"
    then show "\<exists>s''. f k s' = Ok s'' \<and> I (ks' @ [k]) s''"
      by (intro Cons.prems(3)) simp_all
  qed
  with s1(1) show ?case by simp
qed

lemma set_map_filter_Some:
  "set (List.map_filter f xs) = {y. \<exists>x. x \<in> set xs \<and> f x = Some y}"
proof (induction xs)
  case Nil
  show ?case by (simp add: map_filter_simps)
next
  case (Cons x xs)
  show ?case
  proof (cases "f x")
    case None
    with Cons show ?thesis by (auto simp: map_filter_simps)
  next
    case (Some y)
    with Cons show ?thesis by (auto simp: map_filter_simps)
  qed
qed

lemma set_keyOrder: "set (keyOrder al) = fst ` set al"
proof -
  have "set (keyOrder al) =
      Some ` {y. \<exists>x. x \<in> set al \<and> fst x = Some y} \<union> {k \<in> fst ` set al. k = None}"
    by (simp add: keyOrder_def set_map_filter_Some)
  also have "\<dots> = fst ` set al"
  proof (rule set_eqI)
    fix k
    show "k \<in> Some ` {y. \<exists>x. x \<in> set al \<and> fst x = Some y} \<union> {k \<in> fst ` set al. k = None}
        \<longleftrightarrow> k \<in> fst ` set al"
    proof (cases k)
      case None
      then show ?thesis by auto
    next
      case (Some a)
      have "(\<exists>x. x \<in> set al \<and> fst x = Some a) \<longleftrightarrow> Some a \<in> fst ` set al"
        by (metis fst_conv image_iff prod.collapse)
      with Some show ?thesis by auto
    qed
  qed
  finally show ?thesis .
qed

lemma distinct_map_filter_fst:
  "distinct (map fst al) \<Longrightarrow> distinct (List.map_filter fst al)"
proof (induction al)
  case Nil
  show ?case by (simp add: map_filter_simps)
next
  case (Cons x al)
  then have IH: "distinct (List.map_filter fst al)" and nx: "fst x \<notin> fst ` set al" by simp_all
  show ?case
  proof (cases "fst x")
    case None
    with IH show ?thesis by (simp add: map_filter_simps)
  next
    case (Some y)
    with nx have "y \<notin> set (List.map_filter fst al)"
      by (auto simp: set_map_filter_Some image_iff)
    with IH Some show ?thesis by (simp add: map_filter_simps)
  qed
qed

lemma distinct_keyOrder:
  assumes "distinct (map fst al)"
  shows "distinct (keyOrder al)"
proof -
  have "distinct (map Some (sort (List.map_filter fst al)))"
    using distinct_map_filter_fst [OF assms] by (simp add: distinct_map)
  moreover have "distinct (filter (\<lambda>k. k = None) (map fst al))"
    using assms by (rule distinct_filter)
  moreover have "set (map Some (sort (List.map_filter fst al))) \<inter>
      set (filter (\<lambda>k. k = None) (map fst al)) = {}"
    by auto
  ultimately show ?thesis unfolding keyOrder_def distinct_append by blast
qed

lemma paired4_D:
  assumes "paired4 D m1 j (m, be)"
  shows "vertices m = vertices m1" and "faces m = faces m1" and "length D \<le> length (edges m)"
    and "distinct (map fst be)"
    and "\<And>e. e < length D \<Longrightarrow>
           head (edges m ! e) = head (edges m1 ! e) \<and> face (edges m ! e) = face (edges m1 ! e) \<and>
           nxt (edges m ! e) = nxt (edges m1 ! e) \<and> prev (edges m ! e) = prev (edges m1 ! e)"
    and "\<And>e. e < length D \<Longrightarrow> pairOK D j m be e"
    and "\<And>h. length D \<le> h \<Longrightarrow> h < length (edges m) \<Longrightarrow>
           \<exists>e < j. unp D e \<and> pair (edges m ! e) = Some h"
    and "\<And>k h. (k, h) \<in> set be \<Longrightarrow>
           \<exists>e < j. unp D e \<and> k = Some (snd (D ! e)) \<and> pair (edges m ! e) = Some h"
  using assms unfolding paired4_def prod.case by blast+

lemma paired4_unp:
  assumes "paired4 D m1 (length D) (m2, be)" and "e < length D" and "unp D e"
  shows "length D \<le> pr m2 e" and "pr m2 e < length (edges m2)"
    and "pair (edges m2 ! e) = Some (pr m2 e)"
    and "map_of be (Some (snd (D ! e))) = Some (pr m2 e)"
    and "edges m2 ! pr m2 e = newHEdge\<lparr>pair := Some e, head := Some (fst (D ! e))\<rparr>"
proof -
  from paired4_D(6) [OF assms(1,2)] assms(2,3) have
    "\<exists>h. length D \<le> h \<and> h < length (edges m2) \<and> pair (edges m2 ! e) = Some h \<and>
       map_of be (Some (snd (D ! e))) = Some h \<and>
       edges m2 ! h = newHEdge\<lparr>pair := Some e, head := Some (fst (D ! e))\<rparr>"
    by (simp add: pairOK_def)
  then obtain h where
    h: "length D \<le> h" "h < length (edges m2)" "pair (edges m2 ! e) = Some h"
    "map_of be (Some (snd (D ! e))) = Some h"
    "edges m2 ! h = newHEdge\<lparr>pair := Some e, head := Some (fst (D ! e))\<rparr>"
    by blast
  from h(3) have "pr m2 e = h" by (simp add: pr_def)
  with h show "length D \<le> pr m2 e" and "pr m2 e < length (edges m2)"
    and "pair (edges m2 ! e) = Some (pr m2 e)"
    and "map_of be (Some (snd (D ! e))) = Some (pr m2 e)"
    and "edges m2 ! pr m2 e = newHEdge\<lparr>pair := Some e, head := Some (fst (D ! e))\<rparr>"
    by simp_all
qed

lemma paired4_pr_inj:
  assumes "paired4 D m1 (length D) (m2, be)" and "e < length D" and "unp D e"
    and "e' < length D" and "unp D e'" and "pr m2 e = pr m2 e'"
  shows "e = e'"
proof -
  have a: "pair (edges m2 ! pr m2 e) = Some e"
    unfolding paired4_unp(5) [OF assms(1,2,3)] by simp
  have "pair (edges m2 ! pr m2 e') = Some e'"
    unfolding paired4_unp(5) [OF assms(1,4,5)] by simp
  then have "pair (edges m2 ! pr m2 e) = Some e'" unfolding assms(6) .
  with a show ?thesis by simp
qed

lemma paired4_keys:
  assumes "paired4 D m1 (length D) (m2, be)" and "k \<in> fst ` set be"
  shows "\<exists>e < length D. unp D e \<and> k = Some (snd (D ! e))"
proof -
  from assms(2) obtain h where "(k, h) \<in> set be" by auto
  from paired4_D(8) [OF assms(1) this] show ?thesis by blast
qed


lemma linked5_D:
  assumes "linked5 D m2 ks m"
  shows "vertices m = vertices m2" and "faces m = faces m2"
    and "length (edges m) = length (edges m2)"
    and "\<And>x. x < length (edges m2) \<Longrightarrow>
         head (edges m ! x) = head (edges m2 ! x) \<and> pair (edges m ! x) = pair (edges m2 ! x) \<and>
         face (edges m ! x) = face (edges m2 ! x)"
    and "\<And>x. x < length D \<Longrightarrow> edges m ! x = edges m2 ! x"
    and "\<And>e. e < length D \<Longrightarrow> unp D e \<Longrightarrow>
         (if Some (snd (D ! e)) \<in> set ks
          then (\<exists>e' < length D. unp D e' \<and> snd (D ! e') = fst (D ! e) \<and>
                  nxt (edges m ! pr m2 e) = Some (pr m2 e'))
          else nxt (edges m ! pr m2 e) = None)"
    and "\<And>e e'. e < length D \<Longrightarrow> e' < length D \<Longrightarrow> unp D e \<Longrightarrow> unp D e' \<Longrightarrow>
         snd (D ! e') = fst (D ! e) \<Longrightarrow> Some (snd (D ! e)) \<in> set ks \<Longrightarrow>
         prev (edges m ! pr m2 e') = Some (pr m2 e)"
  using assms unfolding linked5_def by blast+

lemma linked5_I:
  assumes "vertices m = vertices m2" and "faces m = faces m2"
    and "length (edges m) = length (edges m2)"
    and "\<And>x. x < length (edges m2) \<Longrightarrow>
         head (edges m ! x) = head (edges m2 ! x) \<and> pair (edges m ! x) = pair (edges m2 ! x) \<and>
         face (edges m ! x) = face (edges m2 ! x)"
    and "\<And>x. x < length D \<Longrightarrow> edges m ! x = edges m2 ! x"
    and "\<And>e. e < length D \<Longrightarrow> unp D e \<Longrightarrow>
         (if Some (snd (D ! e)) \<in> set ks
          then (\<exists>e' < length D. unp D e' \<and> snd (D ! e') = fst (D ! e) \<and>
                  nxt (edges m ! pr m2 e) = Some (pr m2 e'))
          else nxt (edges m ! pr m2 e) = None)"
    and "\<And>e e'. e < length D \<Longrightarrow> e' < length D \<Longrightarrow> unp D e \<Longrightarrow> unp D e' \<Longrightarrow>
         snd (D ! e') = fst (D ! e) \<Longrightarrow> Some (snd (D ! e)) \<in> set ks \<Longrightarrow>
         prev (edges m ! pr m2 e') = Some (pr m2 e)"
  shows "linked5 D m2 ks m"
  unfolding linked5_def using assms by blast


lemma linkBoundary_step5:
  assumes p4: "paired4 D m1 (length D) (m2, be)"
    and ids: "\<forall>i < length (vertices m1). vID (vertices m1 ! i) = Some i"
    and rng: "\<forall>e < length D. fst (D ! e) < length (vertices m1)"
    and hd: "\<And>e e'. e < length D \<Longrightarrow> e' < length D \<Longrightarrow> unp D e \<Longrightarrow> unp D e' \<Longrightarrow>
              snd (D ! e) = snd (D ! e') \<Longrightarrow> e = e'"
    and tl: "\<And>e e'. e < length D \<Longrightarrow> e' < length D \<Longrightarrow> unp D e \<Longrightarrow> unp D e' \<Longrightarrow>
              fst (D ! e) = fst (D ! e') \<Longrightarrow> e = e'"
    and ex: "\<And>e. e < length D \<Longrightarrow> unp D e \<Longrightarrow>
              \<exists>e' < length D. unp D e' \<and> snd (D ! e') = fst (D ! e)"
    and key: "key \<in> fst ` set be" and fresh: "key \<notin> set ks"
    and inv: "linked5 D m2 ks m"
  shows "\<exists>m'. linkBoundary be key m = Ok m' \<and> linked5 D m2 (ks @ [key]) m'"
proof -
  let ?M = "length D"
  from paired4_keys [OF p4 key] obtain e where
    e: "e < ?M" "unp D e" and k: "key = Some (snd (D ! e))" by blast
  from ex [OF e] obtain e' where
    e': "e' < ?M" "unp D e'" and link: "snd (D ! e') = fst (D ! e)" by blast
  let ?i = "pr m2 e" and ?j = "pr m2 e'" and ?a = "fst (D ! e)"
  note pe = paired4_unp [OF p4 e]
  note pe' = paired4_unp [OF p4 e']
  note I = linked5_D [OF inv]
  have v21: "vertices m2 = vertices m1" using p4 by (rule paired4_D(1))
  have il: "?i < length (edges m)" and jl: "?j < length (edges m)"
    using pe(2) pe'(2) I(3) by simp_all
  have hi2: "head (edges m2 ! ?i) = Some ?a" unfolding pe(5) by simp
  have hi: "head (edges m ! ?i) = Some ?a" using I(4) [OF pe(2)] hi2 by simp
  have ni: "nxt (edges m ! ?i) = None" using I(6) [OF e] fresh k by simp
  have al: "?a < length (vertices m)" using rng e(1) I(1) v21 by simp
  have ida: "vID (vertices m ! ?a) = Some ?a" using ids al I(1) v21 by simp
  have look: "map_of be key = Some ?i" using pe(4) k by simp
  have look': "map_of be (Some ?a) = Some ?j" using pe'(4) link by simp
  let ?es1 = "(edges m)[?i := (edges m ! ?i)\<lparr>nxt := Some ?j\<rparr>]"
  let ?es = "?es1[?j := (?es1 ! ?j)\<lparr>prev := Some ?i\<rparr>]"
  let ?m' = "m\<lparr>edges := ?es\<rparr>"
  have run: "linkBoundary be key m = Ok ?m'"
    using look il ni hi al ida look' jl
    by (simp add: linkBoundary_def Let_def getE_def getV_def deref_def)
  have F1: "head (?es ! x) = head (edges m ! x) \<and> pair (?es ! x) = pair (edges m ! x) \<and>
      face (?es ! x) = face (edges m ! x)" for x
    using il jl by (simp add: nth_list_update)
  have F2: "nxt (?es ! x) = (if x = ?i then Some ?j else nxt (edges m ! x))" for x
    using il jl by (simp add: nth_list_update)
  have F3: "prev (?es ! x) = (if x = ?j then Some ?i else prev (edges m ! x))" for x
    using il jl by (simp add: nth_list_update)
  have F4: "?es ! x = edges m ! x" if "x \<noteq> ?i" "x \<noteq> ?j" for x
    using that by simp
  have keyx: "Some (snd (D ! x)) \<in> set (ks @ [key]) \<longleftrightarrow> Some (snd (D ! x)) \<in> set ks"
    if "x < ?M" "unp D x" "x \<noteq> e" for x
  proof -
    from hd [OF that(1) e(1) that(2) e(2)] that(3) have "snd (D ! x) \<noteq> snd (D ! e)" by blast
    then show ?thesis by (simp add: k)
  qed
  have "linked5 D m2 (ks @ [key]) ?m'"
  proof (rule linked5_I)
    show "vertices ?m' = vertices m2" "faces ?m' = faces m2"
      "length (edges ?m') = length (edges m2)"
      using I(1,2,3) by simp_all
  next
    fix x assume "x < length (edges m2)"
    from I(4) [OF this] F1 [of x] show
      "head (edges ?m' ! x) = head (edges m2 ! x) \<and> pair (edges ?m' ! x) = pair (edges m2 ! x) \<and>
       face (edges ?m' ! x) = face (edges m2 ! x)" by simp
  next
    fix x assume x: "x < ?M"
    with pe(1) pe'(1) have "x \<noteq> ?i" "x \<noteq> ?j" by simp_all
    from F4 [OF this] I(5) [OF x] show "edges ?m' ! x = edges m2 ! x" by simp
  next
    fix x assume x: "x < ?M" "unp D x"
    show "if Some (snd (D ! x)) \<in> set (ks @ [key])
          then (\<exists>e' < ?M. unp D e' \<and> snd (D ! e') = fst (D ! x) \<and>
                  nxt (edges ?m' ! pr m2 x) = Some (pr m2 e'))
          else nxt (edges ?m' ! pr m2 x) = None"
    proof (cases "x = e")
      case True
      have "nxt (edges ?m' ! ?i) = Some ?j" using F2 [of ?i] by simp
      with e' link have "\<exists>e' < ?M. unp D e' \<and> snd (D ! e') = fst (D ! e) \<and>
          nxt (edges ?m' ! ?i) = Some (pr m2 e')" by blast
      then show ?thesis unfolding True by (simp add: k)
    next
      case False
      with paired4_pr_inj [OF p4 x e] have "pr m2 x \<noteq> ?i" by blast
      with F2 [of "pr m2 x"] have "nxt (edges ?m' ! pr m2 x) = nxt (edges m ! pr m2 x)" by simp
      with I(6) [OF x] show ?thesis unfolding keyx [OF x False] by simp
    qed
  next
    fix x x' assume x: "x < ?M" and x': "x' < ?M" and ux: "unp D x" and ux': "unp D x'"
      and lk: "snd (D ! x') = fst (D ! x)" and mem: "Some (snd (D ! x)) \<in> set (ks @ [key])"
    show "prev (edges ?m' ! pr m2 x') = Some (pr m2 x)"
    proof (cases "x = e")
      case True
      with lk link have "snd (D ! x') = snd (D ! e')" by simp
      from hd [OF x' e'(1) ux' e'(2) this] have "x' = e'" .
      with True F3 [of ?j] show ?thesis by simp
    next
      case False
      with mem keyx [OF x ux] have "Some (snd (D ! x)) \<in> set ks" by simp
      from I(7) [OF x x' ux ux' lk this] have
        old: "prev (edges m ! pr m2 x') = Some (pr m2 x)" .
      have "pr m2 x' \<noteq> ?j"
      proof
        assume "pr m2 x' = ?j"
        from paired4_pr_inj [OF p4 x' ux' e' this] have "x' = e'" .
        with lk link have "fst (D ! x) = fst (D ! e)" by simp
        from tl [OF x e(1) ux e(2) this] False show False by simp
      qed
      with F3 [of "pr m2 x'"] old show ?thesis by simp
    qed
  qed
  with run show ?thesis by blast
qed


lemma linkBoundaries_all:
  assumes p4: "paired4 D m1 (length D) (m2, be)"
    and ids: "\<forall>i < length (vertices m1). vID (vertices m1 ! i) = Some i"
    and rng: "\<forall>e < length D. fst (D ! e) < length (vertices m1)"
    and hd: "\<And>e e'. e < length D \<Longrightarrow> e' < length D \<Longrightarrow> unp D e \<Longrightarrow> unp D e' \<Longrightarrow>
              snd (D ! e) = snd (D ! e') \<Longrightarrow> e = e'"
    and tl: "\<And>e e'. e < length D \<Longrightarrow> e' < length D \<Longrightarrow> unp D e \<Longrightarrow> unp D e' \<Longrightarrow>
              fst (D ! e) = fst (D ! e') \<Longrightarrow> e = e'"
    and ex: "\<And>e. e < length D \<Longrightarrow> unp D e \<Longrightarrow>
              \<exists>e' < length D. unp D e' \<and> snd (D ! e') = fst (D ! e)"
  shows "\<exists>m3. foldM (linkBoundary be) (keyOrder be) m2 = Ok m3 \<and>
    linked5 D m2 (keyOrder be) m3"
proof -
  have d: "distinct ([] @ keyOrder be)"
    using distinct_keyOrder [OF paired4_D(4) [OF p4]] by simp
  have start: "linked5 D m2 [] m2"
  proof (rule linked5_I)
    fix e assume e: "e < length D" "unp D e"
    have "nxt (edges m2 ! pr m2 e) = None"
      unfolding paired4_unp(5) [OF p4 e] by (simp add: newHEdge_def)
    then show "if Some (snd (D ! e)) \<in> set []
          then (\<exists>e' < length D. unp D e' \<and> snd (D ! e') = fst (D ! e) \<and>
                  nxt (edges m2 ! pr m2 e) = Some (pr m2 e'))
          else nxt (edges m2 ! pr m2 e) = None" by simp
  qed simp_all
  have "\<exists>m3. foldM (linkBoundary be) (keyOrder be) m2 = Ok m3 \<and>
      linked5 D m2 ([] @ keyOrder be) m3"
    using d start
  proof (rule foldM_distinct_invariant)
    fix ks k m
    assume "k \<in> set (keyOrder be)" and fresh: "k \<notin> set ks" and inv: "linked5 D m2 ks m"
    then have key: "k \<in> fst ` set be" by (simp add: set_keyOrder)
    from p4 ids rng hd tl ex key fresh inv
    show "\<exists>m'. linkBoundary be k m = Ok m' \<and> linked5 D m2 (ks @ [k]) m'"
      by (rule linkBoundary_step5)
  qed
  then show ?thesis by simp
qed


end
